theory Spec2Isabelle
  imports Main "HOL-Library.Multiset"
begin

section \<open>Text and character classes\<close>

text \<open>
  The program works on JavaScript strings. A string is modelled as a \<open>string\<close>; one
  \<open>char\<close> stands for one code unit in the range 0..255, so the development covers file
  contents and paths whose code units are below 256. The classes below are the classes
  of the pattern language on that range.
\<close>

definition is_word :: "char \<Rightarrow> bool" where
  \<comment> \<open>the class \<open>\w\<close>\<close>
  "is_word c \<longleftrightarrow> c \<in> set ''abcdefghijklmnopqrstuvwxyzABCDEFGHIJKLMNOPQRSTUVWXYZ0123456789_''"

definition is_space :: "char \<Rightarrow> bool" where
  \<comment> \<open>the class \<open>\s\<close>: tab, line feed, vertical tab, form feed, carriage return, space,
      no-break space\<close>
  "is_space c \<longleftrightarrow> c \<in> set [CHR 0x09, CHR 0x0A, CHR 0x0B, CHR 0x0C, CHR 0x0D, CHR 0x20, CHR 0xA0]"

definition is_line_terminator :: "char \<Rightarrow> bool" where
  "is_line_terminator c \<longleftrightarrow> c \<in> set [CHR 0x0A, CHR 0x0D]"

definition lower_letters :: string where
  "lower_letters = ''abcdefghijklmnopqrstuvwxyz''"

definition upper_letters :: string where
  "upper_letters = ''ABCDEFGHIJKLMNOPQRSTUVWXYZ''"

definition to_upper :: "char \<Rightarrow> char" where
  "to_upper c = (case map_of (zip lower_letters upper_letters) c of Some u \<Rightarrow> u | None \<Rightarrow> c)"

definition to_lower :: "char \<Rightarrow> char" where
  "to_lower c = (case map_of (zip upper_letters lower_letters) c of Some l \<Rightarrow> l | None \<Rightarrow> c)"

definition trim :: "string \<Rightarrow> string" where
  \<comment> \<open>\<open>String.prototype.trim\<close>\<close>
  "trim s = rev (dropWhile is_space (rev (dropWhile is_space s)))"

fun split_char :: "char \<Rightarrow> string \<Rightarrow> string list" where
  \<comment> \<open>\<open>s.split(',')\<close> with a one-character separator\<close>
  "split_char d [] = [[]]"
| "split_char d (c # cs) =
     (if c = d then [] # split_char d cs
      else (case split_char d cs of p # ps \<Rightarrow> (c # p) # ps | [] \<Rightarrow> [[c]]))"

section \<open>Patterns\<close>

text \<open>
  The regular expressions of the source are kept as syntax trees and run by a
  backtracking matcher. Only the constructs that occur in \<open>src/index.js\<close> are present.
\<close>

datatype regex =
    Atom "char \<Rightarrow> bool"   \<comment> \<open>one character of a class\<close>
  | Eps                       \<comment> \<open>the empty pattern\<close>
  | Seq regex regex
  | Alt regex regex           \<comment> \<open>\<open>a|b\<close>, left alternative first\<close>
  | Star regex                \<comment> \<open>greedy \<open>*\<close>\<close>
  | Opt regex                 \<comment> \<open>greedy \<open>?\<close>\<close>
  | Group nat regex           \<comment> \<open>capture group with its number\<close>
  | WordB                     \<comment> \<open>\<open>\b\<close>\<close>
  | StartInput                \<comment> \<open>\<open>^\<close> without the multiline flag\<close>
  | EndInput                  \<comment> \<open>\<open>$\<close> without the multiline flag\<close>
  | NotBehind regex           \<comment> \<open>negative lookbehind \<open>(?<!r)\<close>\<close>

definition chr :: "char \<Rightarrow> regex" where
  "chr c = Atom (\<lambda>x. x = c)"

definition Plus :: "regex \<Rightarrow> regex" where
  \<comment> \<open>greedy \<open>+\<close>\<close>
  "Plus r = Seq r (Star r)"

fun seqs :: "regex list \<Rightarrow> regex" where
  "seqs [] = Eps"
| "seqs [r] = r"
| "seqs (r # rs) = Seq r (seqs rs)"

fun alts :: "regex list \<Rightarrow> regex" where
  "alts [] = Eps"
| "alts [r] = r"
| "alts (r # rs) = Alt r (alts rs)"

definition lit :: "string \<Rightarrow> regex" where
  "lit s = seqs (map chr s)"

abbreviation sp :: regex where "sp \<equiv> Atom is_space"
abbreviation wd :: regex where "wd \<equiv> Atom is_word"

definition ignoring_case :: "(char \<Rightarrow> bool) \<Rightarrow> char \<Rightarrow> bool" where
  \<comment> \<open>a character matches a class when one of its case variants is in the class. Only
      ASCII letters are folded, which is exact for classes of ASCII characters
      (canonicalisation never maps a non-ASCII unit to an ASCII one).\<close>
  "ignoring_case p c \<longleftrightarrow> p c \<or> p (to_upper c) \<or> p (to_lower c)"

fun icase :: "regex \<Rightarrow> regex" where
  \<comment> \<open>the flag \<open>i\<close>\<close>
  "icase (Atom p) = Atom (ignoring_case p)"
| "icase Eps = Eps"
| "icase (Seq r1 r2) = Seq (icase r1) (icase r2)"
| "icase (Alt r1 r2) = Alt (icase r1) (icase r2)"
| "icase (Star r) = Star (icase r)"
| "icase (Opt r) = Opt (icase r)"
| "icase (Group n r) = Group n (icase r)"
| "icase WordB = WordB"
| "icase StartInput = StartInput"
| "icase EndInput = EndInput"
| "icase (NotBehind r) = NotBehind (icase r)"

text \<open>
  A matcher state is the text before the current position (reversed, nearest character
  first), the text from the current position on, and the captures made so far (latest
  first).
\<close>

type_synonym captures = "(nat \<times> string) list"
type_synonym mstate = "string \<times> string \<times> captures"

fun at_boundary :: "string \<Rightarrow> string \<Rightarrow> bool" where
  "at_boundary pre suf =
     ((case pre of [] \<Rightarrow> False | a # _ \<Rightarrow> is_word a) \<noteq>
      (case suf of [] \<Rightarrow> False | b # _ \<Rightarrow> is_word b))"

text \<open>
  \<open>ends r st\<close> lists the states in which a match of \<open>r\<close> begun in \<open>st\<close> can end, in the
  order in which backtracking tries them; the head is the match the engine reports. A
  quantifier rejects an iteration that consumed nothing, as the engine does. The
  lookbehind of the source holds no capture group, so it is decided by whether some
  stretch of text ending at the current position matches its body.
\<close>

function (sequential) ends :: "regex \<Rightarrow> mstate \<Rightarrow> mstate list" where
  "ends (Atom p) (pre, [], caps) = []"
| "ends (Atom p) (pre, c # cs, caps) = (if p c then [(c # pre, cs, caps)] else [])"
| "ends Eps st = [st]"
| "ends (Seq r1 r2) st = concat (map (ends r2) (ends r1 st))"
| "ends (Alt r1 r2) st = ends r1 st @ ends r2 st"
| "ends (Star r) (pre, suf, caps) =
     concat (map (ends (Star r))
       (filter (\<lambda>(pre', suf', caps'). length suf' < length suf) (ends r (pre, suf, caps))))
     @ [(pre, suf, caps)]"
| "ends (Opt r) (pre, suf, caps) =
     filter (\<lambda>(pre', suf', caps'). length suf' < length suf) (ends r (pre, suf, caps))
     @ [(pre, suf, caps)]"
| "ends (Group n r) (pre, suf, caps) =
     map (\<lambda>(pre', suf', caps').
            (pre', suf', (n, rev (take (length pre' - length pre) pre')) # caps'))
       (ends r (pre, suf, caps))"
| "ends WordB (pre, suf, caps) = (if at_boundary pre suf then [(pre, suf, caps)] else [])"
| "ends StartInput (pre, suf, caps) = (if pre = [] then [(pre, suf, caps)] else [])"
| "ends EndInput (pre, suf, caps) = (if suf = [] then [(pre, suf, caps)] else [])"
| "ends (NotBehind r) (pre, suf, caps) =
     (if list_ex (\<lambda>j. list_ex (\<lambda>(pre', suf', caps'). length suf' = length suf)
                          (ends r (drop j pre, rev (take j pre) @ suf, caps)))
                 [0..<Suc (length pre)]
      then [] else [(pre, suf, caps)])"
  by pat_completeness auto
termination
  by (relation "measures [\<lambda>(r, st). size r, \<lambda>(r, (pre, suf, caps)). length suf]") auto

text \<open>A found match: the matched text and the captures.\<close>

type_synonym found = "string \<times> captures"

definition capture :: "nat \<Rightarrow> captures \<Rightarrow> string option" where
  \<comment> \<open>\<open>match[n]\<close>; \<open>None\<close> is \<open>undefined\<close>\<close>
  "capture n caps = map_of caps n"

fun search :: "regex \<Rightarrow> string \<Rightarrow> string \<Rightarrow> (string \<times> mstate) option" where
  \<comment> \<open>the leftmost match at or after the current position: where it starts and where it ends\<close>
  "search r pre [] = (case ends r (pre, [], []) of [] \<Rightarrow> None | m # _ \<Rightarrow> Some (pre, m))"
| "search r pre (c # cs) =
     (case ends r (pre, c # cs, []) of [] \<Rightarrow> search r (c # pre) cs | m # _ \<Rightarrow> Some (pre, m))"

definition matched_text :: "string \<Rightarrow> mstate \<Rightarrow> string" where
  "matched_text start m = (case m of (pre', suf', caps') \<Rightarrow> rev (take (length pre' - length start) pre'))"

definition test :: "regex \<Rightarrow> string \<Rightarrow> bool" where
  \<comment> \<open>\<open>re.test(s)\<close> and \<open>s.match(re)\<close> for a pattern without the flag \<open>g\<close>\<close>
  "test r s \<longleftrightarrow> search r [] s \<noteq> None"


subsection \<open>What a match consumes\<close>

text \<open>
  The equation for \<open>Star\<close> mentions \<open>Star\<close> again on its right-hand side; it is unfolded by
  hand where needed.
\<close>

declare ends.simps(6) [simp del]

lemma in_ends_Star:
  "x \<in> set (ends (Star r) (pre, suf, caps)) \<longleftrightarrow>
     x = (pre, suf, caps) \<or>
     (\<exists>m \<in> set (ends r (pre, suf, caps)).
        length (fst (snd m)) < length suf \<and> x \<in> set (ends (Star r) m))"
  by (auto simp: ends.simps(6)[of r pre suf caps])

definition extends :: "mstate \<Rightarrow> mstate \<Rightarrow> bool" where
  \<comment> \<open>the second state is the first one moved forward over some text \<open>w\<close>\<close>
  "extends st x \<longleftrightarrow> (\<exists>w. fst (snd st) = w @ fst (snd x) \<and> fst x = rev w @ fst st)"

lemma extends_refl: "extends st st"
  by (simp add: extends_def)

lemma extends_trans: "extends a b \<Longrightarrow> extends b c \<Longrightarrow> extends a c"
  unfolding extends_def
proof -
  assume "\<exists>w. fst (snd a) = w @ fst (snd b) \<and> fst b = rev w @ fst a"
    and "\<exists>w. fst (snd b) = w @ fst (snd c) \<and> fst c = rev w @ fst b"
  then obtain w1 w2 where "fst (snd a) = w1 @ fst (snd b)" "fst b = rev w1 @ fst a"
    "fst (snd b) = w2 @ fst (snd c)" "fst c = rev w2 @ fst b" by blast
  then have "fst (snd a) = (w1 @ w2) @ fst (snd c) \<and> fst c = rev (w1 @ w2) @ fst a" by simp
  then show "\<exists>w. fst (snd a) = w @ fst (snd c) \<and> fst c = rev w @ fst a" by blast
qed

lemma ends_extends: "x \<in> set (ends r st) \<Longrightarrow> extends st x"
proof (induction r st arbitrary: x rule: ends.induct)
  case (1 p pre caps)
  then show ?case by simp
next
  case (2 p pre c cs caps)
  then show ?case by (auto simp: extends_def split: if_splits)
next
  case (3 st)
  then show ?case by (simp add: extends_refl)
next
  case (4 r1 r2 st)
  from "4.prems" obtain m where m: "m \<in> set (ends r1 st)" "x \<in> set (ends r2 m)" by auto
  from "4.IH"(1)[OF m(1)] "4.IH"(2)[OF m(1) m(2)] show ?case by (rule extends_trans)
next
  case (5 r1 r2 st)
  from "5.prems" have "x \<in> set (ends r1 st) \<or> x \<in> set (ends r2 st)" by simp
  with "5.IH" show ?case by blast
next
  case (6 r pre suf caps)
  from "6.prems" consider (stop) "x = (pre, suf, caps)"
    | (iter) m where
        "m \<in> set (filter (\<lambda>(pre', suf', caps'). length suf' < length suf) (ends r (pre, suf, caps)))"
        "x \<in> set (ends (Star r) m)"
    unfolding in_ends_Star by (auto simp: case_prod_beta)
  then show ?case
  proof cases
    case stop
    then show ?thesis by (simp add: extends_refl)
  next
    case iter
    from iter(1) have "m \<in> set (ends r (pre, suf, caps))" by simp
    from "6.IH"(1)[OF this] "6.IH"(2)[OF iter(1) iter(2)] show ?thesis by (rule extends_trans)
  qed
next
  case (7 r pre suf caps)
  from "7.prems" have "x = (pre, suf, caps) \<or> x \<in> set (ends r (pre, suf, caps))" by auto
  with "7.IH" extends_refl show ?case by blast
next
  case (8 n r pre suf caps)
  from "8.prems" obtain m where m: "m \<in> set (ends r (pre, suf, caps))"
    and x: "x = (case m of (pre', suf', caps') \<Rightarrow>
                  (pre', suf', (n, rev (take (length pre' - length pre) pre')) # caps'))"
    by auto
  from "8.IH"[OF m] x show ?case by (cases m) (auto simp: extends_def)
next
  case (9 pre suf caps)
  then show ?case by (simp add: extends_refl split: if_splits)
next
  case (10 pre suf caps)
  then show ?case by (simp add: extends_refl split: if_splits)
next
  case (11 pre suf caps)
  then show ?case by (simp add: extends_refl split: if_splits)
next
  case (12 r pre suf caps)
  from "12.prems" have "x = (pre, suf, caps)" by (simp split: if_splits)
  then show ?case by (simp add: extends_refl)
qed

lemma ends_length:
  "(pre', suf', caps') \<in> set (ends r (pre, suf, caps)) \<Longrightarrow> length suf' \<le> length suf"
  by (drule ends_extends) (auto simp: extends_def)

lemma ends_hd_length:
  "ends r (pre, suf, caps) = (pre', suf', caps') # rest \<Longrightarrow> length suf' \<le> length suf"
  by (rule ends_length[of pre' suf' caps' r pre suf caps]) simp

lemma search_shape:
  "search r pre suf = Some (start, m) \<Longrightarrow>
     \<exists>u w. suf = u @ w @ fst (snd m) \<and> start = rev u @ pre \<and> fst m = rev w @ start"
proof (induction suf arbitrary: pre)
  case Nil
  then obtain rest where e: "ends r (pre, [], []) = m # rest" and s: "start = pre"
    by (auto split: list.splits)
  from e have "m \<in> set (ends r (pre, [], []))" by simp
  then have "extends (pre, [], []) m" by (rule ends_extends)
  then obtain w where "[] = w @ fst (snd m)" "fst m = rev w @ pre" by (auto simp: extends_def)
  with s have "[] = [] @ w @ fst (snd m) \<and> start = rev [] @ pre \<and> fst m = rev w @ start" by simp
  then show ?case by blast
next
  case (Cons c cs)
  show ?case
  proof (cases "ends r (pre, c # cs, [])")
    case Nil
    with Cons.prems have "search r (c # pre) cs = Some (start, m)" by simp
    from Cons.IH[OF this] obtain u w where
      "cs = u @ w @ fst (snd m)" "start = rev u @ c # pre" "fst m = rev w @ start" by blast
    then have "c # cs = (c # u) @ w @ fst (snd m) \<and> start = rev (c # u) @ pre \<and> fst m = rev w @ start"
      by simp
    then show ?thesis by blast
  next
    case (Cons m' rest)
    with Cons.prems have s: "start = pre" "m' = m" by auto
    from Cons s have "m \<in> set (ends r (pre, c # cs, []))" by simp
    then have "extends (pre, c # cs, []) m" by (rule ends_extends)
    then obtain w where "c # cs = w @ fst (snd m)" "fst m = rev w @ pre" by (auto simp: extends_def)
    with s have "c # cs = [] @ w @ fst (snd m) \<and> start = rev [] @ pre \<and> fst m = rev w @ start"
      by simp
    then show ?thesis by blast
  qed
qed

lemma search_length:
  "search r pre suf = Some (start, pre', suf', caps') \<Longrightarrow> length suf' \<le> length suf"
  by (drule search_shape) auto

lemma search_progress:
  "search r pre suf = Some (start, pre', suf', caps') \<Longrightarrow> pre' \<noteq> start \<Longrightarrow>
     length suf' < length suf"
  by (drule search_shape) auto

subsection \<open>The loops around a pattern\<close>

text \<open>
  \<open>while ((match = re.exec(content)) !== null)\<close> with a global pattern: every search starts
  where the last match ended. A match that ends where the search started leaves
  \<open>lastIndex\<close> in place and the loop never ends; that is the value \<open>None\<close>.
\<close>

function exec_all :: "regex \<Rightarrow> string \<Rightarrow> string \<Rightarrow> found list option" where
  "exec_all r pre suf =
     (case search r pre suf of
        None \<Rightarrow> Some []
      | Some (start, pre', suf', caps') \<Rightarrow>
          if length suf' < length suf
          then map_option ((#) (matched_text start (pre', suf', caps'), caps')) (exec_all r pre' suf')
          else None)"
  by pat_completeness auto
termination
  by (relation "measure (\<lambda>(r, pre, suf). length suf)") auto


text \<open>
  \<open>content.match(re)\<close> with a global pattern: the matched texts, \<open>[]\<close> standing for \<open>null\<close>.
  After an empty match the search moves one character on.
\<close>

function match_g :: "regex \<Rightarrow> string \<Rightarrow> string \<Rightarrow> string list" where
  "match_g r pre suf =
     (case search r pre suf of
        None \<Rightarrow> []
      | Some (start, pre', suf', caps') \<Rightarrow>
          matched_text start (pre', suf', caps') #
          (if pre' = start
           then (case suf' of [] \<Rightarrow> [] | c # cs \<Rightarrow> match_g r (c # pre') cs)
           else match_g r pre' suf'))"
  by pat_completeness auto
termination
  apply (relation "measure (\<lambda>(r, pre, suf). length suf)")
    apply simp
  subgoal for r pre suf x2 x y x1a x2a x1b x2b x21 x22
    using search_length[of r pre suf x "fst y" "fst (snd y)" "snd (snd y)"] by auto
  subgoal for r pre suf x2 x y x1a x2a x1b x2b
    using search_progress[of r pre suf x "fst y" "fst (snd y)" "snd (snd y)"] by auto
  done

declare exec_all.simps [simp del] match_g.simps [simp del]

text \<open>
  \<open>s.split(re)\<close>: the pattern is tried at each position \<open>q\<close> in turn; \<open>acc\<close> holds the text
  since the end \<open>p\<close> of the last separator. A match that ends at \<open>p\<close> is passed over. The
  separators of the source have no capture group, so only the pieces are returned.
\<close>

function split_loop :: "regex \<Rightarrow> string \<Rightarrow> string \<Rightarrow> string \<Rightarrow> string list" where
  "split_loop r acc pre [] = [rev acc]"
| "split_loop r acc pre (c # cs) =
     (case ends r (pre, c # cs, []) of
        [] \<Rightarrow> split_loop r (c # acc) (c # pre) cs
      | (pre', suf', caps') # _ \<Rightarrow>
          if acc = [] \<and> length suf' = length (c # cs)
          then split_loop r (c # acc) (c # pre) cs
          else rev acc # split_loop r [] pre' suf')"
  by pat_completeness auto
termination
proof (relation "measure (\<lambda>(r, acc, pre, suf). 2 * length suf + (if acc = [] then 0 else 1))")
  fix r :: regex and acc pre :: string and c :: char and cs :: string and x rest pre' y suf' caps'
  assume e: "ends r (pre, c # cs, []) = x # rest" "(pre', y) = x" "(suf', caps') = y"
    and n: "\<not> (acc = [] \<and> length suf' = length (c # cs))"
  from e have "ends r (pre, c # cs, []) = (pre', suf', caps') # rest" by simp
  from ends_hd_length[OF this] n
  show "((r, [], pre', suf'), (r, acc, pre, c # cs))
          \<in> measure (\<lambda>(r, acc, pre, suf). 2 * length suf + (if acc = [] then 0 else 1))"
    by auto
qed auto

definition js_split :: "regex \<Rightarrow> string \<Rightarrow> string list" where
  "js_split r s =
     (if s = [] then (if ends r ([], [], []) = [] then [[]] else [])
      else split_loop r [] [] s)"


section \<open>The program\<close>

subsection \<open>Declarations\<close>

datatype kind = Named | Default | Function | Arrow
  \<comment> \<open>the strings \<open>'named'\<close>, \<open>'default'\<close>, \<open>'function'\<close>, \<open>'arrow'\<close> of the field \<open>type\<close>\<close>

record decl =
  name :: string
  type :: kind
  file_path :: string  \<comment> \<open>the field \<open>file\<close>\<close>

definition group :: "nat \<Rightarrow> found \<Rightarrow> string" where
  \<comment> \<open>\<open>match[n]\<close> where group \<open>n\<close> takes part in every match of the pattern\<close>
  "group n m = (case capture n (snd m) of Some s \<Rightarrow> s | None \<Rightarrow> [])"

subsection \<open>extractExports\<close>

definition namedExportRegex :: regex where
  \<comment> \<open>\<open>/export\s+(?:const|let|var|function|class|async\s+function)\s+(\w+)/g\<close>\<close>
  "namedExportRegex =
     seqs [lit ''export'', Plus sp,
           alts [lit ''const'', lit ''let'', lit ''var'', lit ''function'', lit ''class'',
                 seqs [lit ''async'', Plus sp, lit ''function'']],
           Plus sp, Group 1 (Plus wd)]"

definition exportListRegex :: regex where
  \<comment> \<open>\<open>/export\s*\{([^}]+)\}/g\<close>\<close>
  "exportListRegex =
     seqs [lit ''export'', Star sp, chr CHR ''{'',
           Group 1 (Plus (Atom (\<lambda>c. c \<noteq> CHR ''}''))), chr CHR ''}'']"

definition defaultNamedRegex :: regex where
  \<comment> \<open>\<open>/export\s+default\s+(?:function|class|async\s+function)\s+(\w+)/g\<close>\<close>
  "defaultNamedRegex =
     seqs [lit ''export'', Plus sp, lit ''default'', Plus sp,
           alts [lit ''function'', lit ''class'', seqs [lit ''async'', Plus sp, lit ''function'']],
           Plus sp, Group 1 (Plus wd)]"

definition asRegex :: regex where
  \<comment> \<open>\<open>/\s+as\s+/\<close>\<close>
  "asRegex = seqs [Plus sp, lit ''as'', Plus sp]"

definition first_part :: "string list \<Rightarrow> string" where
  \<comment> \<open>\<open>parts[0]\<close>; the separators of the source match no empty text, so a split yields at
      least one part (lemma \<open>js_split_not_Nil\<close>)\<close>
  "first_part parts = (case parts of [] \<Rightarrow> [] | p # _ \<Rightarrow> p)"

definition last_part :: "string list \<Rightarrow> string" where
  \<comment> \<open>\<open>parts[parts.length - 1]\<close>, likewise\<close>
  "last_part parts = (case rev parts of [] \<Rightarrow> [] | p # _ \<Rightarrow> p)"

definition export_list_names :: "string \<Rightarrow> string list" where
  \<comment> \<open>the names of one export list: original name of \<open>name as alias\<close>, empty entries dropped\<close>
  "export_list_names inner =
     filter (\<lambda>n. n \<noteq> [])
       (map (\<lambda>n. let trimmed = trim n; asParts = js_split asRegex trimmed
                 in trim (first_part asParts))
            (split_char CHR '','' inner))"

definition named_exports :: "string \<Rightarrow> string \<Rightarrow> decl list option" where
  \<comment> \<open>the first loop, lines 51-55\<close>
  "named_exports content filePath =
     map_option (map (\<lambda>m. \<lparr>name = group 1 m, type = Named, file_path = filePath\<rparr>))
       (exec_all namedExportRegex [] content)"

definition list_exports :: "string \<Rightarrow> string \<Rightarrow> decl list option" where
  \<comment> \<open>the second loop, lines 58-71\<close>
  "list_exports content filePath =
     map_option
       (\<lambda>lists. concat (map (\<lambda>m. map (\<lambda>n. \<lparr>name = n, type = Named, file_path = filePath\<rparr>)
                                     (filter (\<lambda>n. n \<noteq> ''default'') (export_list_names (group 1 m))))
                            lists))
       (exec_all exportListRegex [] content)"

definition default_exports :: "string \<Rightarrow> string \<Rightarrow> decl list option" where
  \<comment> \<open>the third loop, lines 74-77\<close>
  "default_exports content filePath =
     map_option (map (\<lambda>m. \<lparr>name = group 1 m, type = Default, file_path = filePath\<rparr>))
       (exec_all defaultNamedRegex [] content)"

definition extractExports :: "string \<Rightarrow> string \<Rightarrow> decl list option" where
  "extractExports content filePath =
     Option.bind (named_exports content filePath) (\<lambda>named.
     Option.bind (list_exports content filePath) (\<lambda>lists.
     Option.bind (default_exports content filePath) (\<lambda>defaults.
       Some (named @ lists @ defaults))))"

subsection \<open>extractFunctions\<close>

definition funcRegex :: regex where
  \<comment> \<open>\<open>/(?<!export\s+)function\s+(\w+)\s*\(/g\<close>\<close>
  "funcRegex =
     seqs [NotBehind (seqs [lit ''export'', Plus sp]), lit ''function'', Plus sp,
           Group 1 (Plus wd), Star sp, chr CHR ''('']"

definition arrowRegex :: regex where
  \<comment> \<open>\<open>/(?:const|let|var)\s+(\w+)\s*=\s*(?:async\s*)?\([^)]*\)\s*=>/g\<close>\<close>
  "arrowRegex =
     seqs [alts [lit ''const'', lit ''let'', lit ''var''], Plus sp, Group 1 (Plus wd), Star sp,
           chr CHR ''='', Star sp, Opt (seqs [lit ''async'', Star sp]),
           chr CHR ''('', Star (Atom (\<lambda>c. c \<noteq> CHR '')'')), chr CHR '')'', Star sp, lit ''=>'']"

definition arrowSimpleRegex :: regex where
  \<comment> \<open>\<open>/(?:const|let|var)\s+(\w+)\s*=\s*(?:async\s*)?\w+\s*=>/g\<close>\<close>
  "arrowSimpleRegex =
     seqs [alts [lit ''const'', lit ''let'', lit ''var''], Plus sp, Group 1 (Plus wd), Star sp,
           chr CHR ''='', Star sp, Opt (seqs [lit ''async'', Star sp]),
           Plus wd, Star sp, lit ''=>'']"

definition extractFunctions :: "string \<Rightarrow> string \<Rightarrow> decl list option" where
  "extractFunctions content filePath =
     Option.bind (exec_all funcRegex [] content) (\<lambda>funcs.
     Option.bind (exec_all arrowRegex [] content) (\<lambda>arrows.
     Option.bind (exec_all arrowSimpleRegex [] content) (\<lambda>simples.
       Some (map (\<lambda>m. \<lparr>name = group 1 m, type = Function, file_path = filePath\<rparr>) funcs
             @ map (\<lambda>m. \<lparr>name = group 1 m, type = Arrow, file_path = filePath\<rparr>) arrows
             @ map (\<lambda>m. \<lparr>name = group 1 m, type = Arrow, file_path = filePath\<rparr>) simples))))"

subsection \<open>findImports\<close>

definition namedImportRegex :: regex where
  \<comment> \<open>\<open>/import\s*\{([^}]+)\}\s*from/g\<close>\<close>
  "namedImportRegex =
     seqs [lit ''import'', Star sp, chr CHR ''{'',
           Group 1 (Plus (Atom (\<lambda>c. c \<noteq> CHR ''}''))), chr CHR ''}'', Star sp, lit ''from'']"

definition defaultImportRegex :: regex where
  \<comment> \<open>\<open>/import\s+(\w+)\s+from/g\<close>\<close>
  "defaultImportRegex = seqs [lit ''import'', Plus sp, Group 1 (Plus wd), Plus sp, lit ''from'']"

definition namespaceImportRegex :: regex where
  \<comment> \<open>\<open>/import\s+\*\s+as\s+(\w+)\s+from/g\<close>\<close>
  "namespaceImportRegex =
     seqs [lit ''import'', Plus sp, chr CHR ''*'', Plus sp, lit ''as'', Plus sp,
           Group 1 (Plus wd), Plus sp, lit ''from'']"

definition requireRegex :: regex where
  \<comment> \<open>\<open>/(?:const|let|var)\s+(?:\{([^}]+)\}|(\w+))\s*=\s*require\(/g\<close>\<close>
  "requireRegex =
     seqs [alts [lit ''const'', lit ''let'', lit ''var''], Plus sp,
           Alt (seqs [chr CHR ''{'', Group 1 (Plus (Atom (\<lambda>c. c \<noteq> CHR ''}''))), chr CHR ''}''])
               (Group 2 (Plus wd)),
           Star sp, chr CHR ''='', Star sp, lit ''require('']"

definition colonRegex :: regex where
  \<comment> \<open>\<open>/\s*:\s*/\<close>\<close>
  "colonRegex = seqs [Star sp, chr CHR '':'', Star sp]"

definition named_import_names :: "string \<Rightarrow> string list" where
  \<comment> \<open>the names of one import list: the alias of \<open>name as alias\<close>\<close>
  "named_import_names inner =
     filter (\<lambda>n. n \<noteq> [])
       (map (\<lambda>n. let trimmed = trim n; asParts = js_split asRegex trimmed
                 in trim (last_part asParts))
            (split_char CHR '','' inner))"

definition require_names :: "found \<Rightarrow> string list" where
  \<comment> \<open>the body of the \<open>require\<close> loop: \<open>match[1]\<close> is tested for truthiness, then \<open>match[2]\<close>\<close>
  "require_names m =
     (case capture 1 (snd m) of
        Some (c # cs) \<Rightarrow>
          filter (\<lambda>n. n \<noteq> [])
            (map (\<lambda>n. first_part (js_split colonRegex (trim n))) (split_char CHR '','' (c # cs)))
      | _ \<Rightarrow> (case capture 2 (snd m) of Some (c # cs) \<Rightarrow> [c # cs] | _ \<Rightarrow> []))"

definition findImports :: "string \<Rightarrow> string set option" where
  "findImports content =
     Option.bind (exec_all namedImportRegex [] content) (\<lambda>named.
     Option.bind (exec_all defaultImportRegex [] content) (\<lambda>defaults.
     Option.bind (exec_all namespaceImportRegex [] content) (\<lambda>namespaces.
     Option.bind (exec_all requireRegex [] content) (\<lambda>requires.
       Some (set (concat (map (\<lambda>m. named_import_names (group 1 m)) named)
                  @ map (group 1) defaults
                  @ map (group 1) namespaces
                  @ concat (map require_names requires)))))))"


subsection \<open>Patterns built from a name\<close>

text \<open>
  The second pass builds patterns by pasting a declared name into pattern source text
  (\<open>new RegExp(`\\b${name}\\b`)\<close>); the name is read as pattern syntax. A character that
  is no syntax character stands for itself, \<open>^\<close> \<open>$\<close> \<open>.\<close> have their pattern meaning.
  Names holding one of \<open>\ * + ? ( ) [ ] { } |\<close> are outside the fragment of pattern syntax
  modelled here: for them \<open>name_pattern\<close> is \<open>None\<close> and the run yields
  \<open>Pattern_not_modelled\<close>. Names captured by \<open>(\w+)\<close> are always inside the fragment.
\<close>

definition source_char :: "char \<Rightarrow> regex option" where
  "source_char c =
     (if c \<in> set [CHR 0x5C, CHR ''*'', CHR ''+'', CHR ''?'', CHR ''('', CHR '')'',
                   CHR ''['', CHR '']'', CHR ''{'', CHR ''}'', CHR ''|''] then None
      else if c = CHR ''$'' then Some EndInput
      else if c = CHR ''^'' then Some StartInput
      else if c = CHR ''.'' then Some (Atom (\<lambda>x. \<not> is_line_terminator x))
      else Some (chr c))"

fun name_pattern :: "string \<Rightarrow> regex list option" where
  "name_pattern [] = Some []"
| "name_pattern (c # cs) =
     (case source_char c of
        None \<Rightarrow> None
      | Some r \<Rightarrow> (case name_pattern cs of None \<Rightarrow> None | Some rs \<Rightarrow> Some (r # rs)))"

definition usageRegex :: "string \<Rightarrow> regex option" where
  \<comment> \<open>\<open>new RegExp(`\\b${exp.name}\\b`)\<close>\<close>
  "usageRegex n = map_option (\<lambda>rs. seqs ([WordB] @ rs @ [WordB])) (name_pattern n)"

definition funcNameRegex :: "string \<Rightarrow> regex option" where
  \<comment> \<open>\<open>new RegExp(`\\b${func.name}\\s*\\(`, 'g')\<close>\<close>
  "funcNameRegex n =
     map_option (\<lambda>rs. seqs ([WordB] @ rs @ [Star sp, chr CHR ''(''])) (name_pattern n)"

definition refRegex :: "string \<Rightarrow> regex option" where
  \<comment> \<open>\<open>new RegExp(`[^\\w]${func.name}[^\\w(]`, 'g')\<close>\<close>
  "refRegex n =
     map_option (\<lambda>rs. seqs ([Atom (\<lambda>c. \<not> is_word c)] @ rs
                              @ [Atom (\<lambda>c. \<not> is_word c \<and> c \<noteq> CHR ''('')]))
       (name_pattern n)"

subsection \<open>Entry points\<close>

definition indexRegex :: regex where
  \<comment> \<open>\<open>/index\.[jt]sx?$/\<close>\<close>
  "indexRegex =
     seqs [lit ''index'', chr CHR ''.'', Atom (\<lambda>c. c \<in> set ''jt''), chr CHR ''s'',
           Opt (chr CHR ''x''), EndInput]"

definition mainRegex :: regex where
  \<comment> \<open>\<open>/main\.[jt]sx?$/\<close>\<close>
  "mainRegex =
     seqs [lit ''main'', chr CHR ''.'', Atom (\<lambda>c. c \<in> set ''jt''), chr CHR ''s'',
           Opt (chr CHR ''x''), EndInput]"

definition appRegex :: regex where
  \<comment> \<open>\<open>/app\.[jt]sx?$/i\<close>\<close>
  "appRegex =
     icase (seqs [lit ''app'', chr CHR ''.'', Atom (\<lambda>c. c \<in> set ''jt''), chr CHR ''s'',
                  Opt (chr CHR ''x''), EndInput])"

definition is_entry_point :: "string \<Rightarrow> bool" where
  \<comment> \<open>the test of line 204 on \<open>relPath\<close>\<close>
  "is_entry_point relPath \<longleftrightarrow>
     test indexRegex relPath \<or> test mainRegex relPath \<or> test appRegex relPath"

subsection \<open>main\<close>

text \<open>
  What \<open>main\<close> reads from outside is passed in: the options, the list of files that
  \<open>scanFiles\<close> returned, \<open>fs.readFileSync\<close> as a function from paths to contents (\<open>None\<close>
  where it throws), and the clock. \<open>relative\<close> stands for \<open>path.relative(opts.dir, _)\<close>.
  Console output is left out.
\<close>

record options =
  exportsOnly :: bool
  outputFile :: "string option"   \<comment> \<open>the option \<open>output\<close>\<close>
  relative :: "string \<Rightarrow> string"

datatype failure = Never_returns | Pattern_not_modelled string

type_synonym file_contents = "(string \<times> string) list"
  \<comment> \<open>the \<open>Map\<close> \<open>fileContents\<close>, in insertion order\<close>

fun map_set :: "string \<Rightarrow> string \<Rightarrow> file_contents \<Rightarrow> file_contents" where
  \<comment> \<open>\<open>Map.prototype.set\<close>: an existing key keeps its place\<close>
  "map_set k v [] = [(k, v)]"
| "map_set k v ((k', v') # m) = (if k' = k then (k, v) # m else (k', v') # map_set k v m)"

fun first_pass ::
  "bool \<Rightarrow> (string \<Rightarrow> string option) \<Rightarrow> string list \<Rightarrow>
   decl list \<times> decl list \<times> file_contents \<Rightarrow> (decl list \<times> decl list \<times> file_contents) option"
where
  "first_pass eo readFile [] acc = Some acc"
| "first_pass eo readFile (f # files) (allExports, allFunctions, fileContents) =
     (case readFile f of
        None \<Rightarrow> first_pass eo readFile files (allExports, allFunctions, fileContents)
      | Some content \<Rightarrow>
          (case extractExports content f of
             None \<Rightarrow> None
           | Some exports \<Rightarrow>
               if eo
               then first_pass eo readFile files
                      (allExports @ exports, allFunctions, map_set f content fileContents)
               else (case extractFunctions content f of
                       None \<Rightarrow> None
                     | Some functions \<Rightarrow>
                         first_pass eo readFile files
                           (allExports @ exports, allFunctions @ functions,
                            map_set f content fileContents))))"

definition file_usages :: "decl \<Rightarrow> string \<times> string \<Rightarrow> failure + nat" where
  \<comment> \<open>one round of the loop of lines 208-224: what it adds to \<open>totalUsages\<close>\<close>
  "file_usages exp fc =
     (case fc of (f, content) \<Rightarrow>
        if f = file_path exp then Inr 0
        else (case findImports content of
                None \<Rightarrow> Inl Never_returns
              | Some imports \<Rightarrow>
                  (case usageRegex (name exp) of
                     None \<Rightarrow> Inl (Pattern_not_modelled (name exp))
                   | Some regex \<Rightarrow>
                       Inr ((if name exp \<in> imports then 1 else 0)
                            + (if test regex content \<and> f \<noteq> file_path exp then 1 else 0)))))"

fun total_usages :: "decl \<Rightarrow> file_contents \<Rightarrow> failure + nat" where
  "total_usages exp [] = Inr 0"
| "total_usages exp (fc # rest) =
     (case file_usages exp fc of
        Inl e \<Rightarrow> Inl e
      | Inr n \<Rightarrow> (case total_usages exp rest of Inl e \<Rightarrow> Inl e | Inr k \<Rightarrow> Inr (n + k)))"

fun check_exports :: "options \<Rightarrow> file_contents \<Rightarrow> decl list \<Rightarrow> failure + decl list" where
  \<comment> \<open>the loop of lines 199-230: the list \<open>unusedExports\<close>\<close>
  "check_exports opts fileContents [] = Inr []"
| "check_exports opts fileContents (exp # rest) =
     (if is_entry_point (relative opts (file_path exp)) then check_exports opts fileContents rest
      else (case total_usages exp fileContents of
              Inl e \<Rightarrow> Inl e
            | Inr totalUsages \<Rightarrow>
                (case check_exports opts fileContents rest of
                   Inl e \<Rightarrow> Inl e
                 | Inr unused \<Rightarrow> Inr (if totalUsages = 0 then exp # unused else unused))))"

definition function_unused :: "decl list \<Rightarrow> file_contents \<Rightarrow> decl \<Rightarrow> failure + bool" where
  \<comment> \<open>the body of the loop of lines 234-256: whether \<open>func\<close> is pushed\<close>
  "function_unused allExports fileContents func =
     (if list_ex (\<lambda>e. name e = name func \<and> file_path e = file_path func) allExports then Inr False
      else (case map_of fileContents (file_path func) of
              None \<Rightarrow> Inr False
            | Some content \<Rightarrow>
                if content = [] then Inr False
                else (case funcNameRegex (name func) of
                        None \<Rightarrow> Inl (Pattern_not_modelled (name func))
                      | Some fre \<Rightarrow>
                          let matches = match_g fre [] content;
                              usageCount = (if matches = [] then 0 else int (length matches) - 1)
                          in if usageCount \<le> 0
                             then (case refRegex (name func) of
                                     None \<Rightarrow> Inl (Pattern_not_modelled (name func))
                                   | Some rre \<Rightarrow> Inr (match_g rre [] content = []))
                             else Inr False)))"

fun check_functions :: "decl list \<Rightarrow> file_contents \<Rightarrow> decl list \<Rightarrow> failure + decl list" where
  \<comment> \<open>the loop of lines 234-256: the list \<open>unusedFunctions\<close>\<close>
  "check_functions allExports fileContents [] = Inr []"
| "check_functions allExports fileContents (func # rest) =
     (case function_unused allExports fileContents func of
        Inl e \<Rightarrow> Inl e
      | Inr pushed \<Rightarrow>
          (case check_functions allExports fileContents rest of
             Inl e \<Rightarrow> Inl e
           | Inr unused \<Rightarrow> Inr (if pushed then func # unused else unused)))"

record report =
  timestamp :: string
  filesScanned :: nat
  totalExports :: nat
  totalFunctions :: "nat option"       \<comment> \<open>\<open>None\<close> is \<open>null\<close>\<close>
  unusedExports :: "decl list"
  unusedFunctions :: "decl list option"

record scan =
  allExports :: "decl list"
  allFunctions :: "decl list"
  foundExports :: "decl list"          \<comment> \<open>the variable \<open>unusedExports\<close>\<close>
  foundFunctions :: "decl list"        \<comment> \<open>the variable \<open>unusedFunctions\<close>\<close>
  written :: "(string \<times> report) option" \<comment> \<open>the file written by line 355 and its content\<close>

definition relativized :: "options \<Rightarrow> decl \<Rightarrow> decl" where
  "relativized opts d = \<lparr>name = name d, type = type d, file_path = relative opts (file_path d)\<rparr>"

definition build_report ::
  "options \<Rightarrow> string \<Rightarrow> string list \<Rightarrow> decl list \<Rightarrow> decl list \<Rightarrow> decl list \<Rightarrow> decl list \<Rightarrow> report"
where
  \<comment> \<open>the object \<open>report\<close> of lines 339-354\<close>
  "build_report opts now files exports functions unusedE unusedF =
     \<lparr>timestamp = now,
      filesScanned = length files,
      totalExports = length exports,
      totalFunctions = (if exportsOnly opts then None else Some (length functions)),
      unusedExports = map (relativized opts) unusedE,
      unusedFunctions = (if exportsOnly opts then None else Some (map (relativized opts) unusedF))\<rparr>"

definition save_report ::
  "options \<Rightarrow> string \<Rightarrow> string list \<Rightarrow> decl list \<Rightarrow> decl list \<Rightarrow> decl list \<Rightarrow> decl list \<Rightarrow>
   (string \<times> report) option"
where
  \<comment> \<open>lines 272-275 return before anything is written when both lists are empty; line 338
      tests \<open>opts.output\<close> for truthiness\<close>
  "save_report opts now files exports functions unusedE unusedF =
     (if unusedE = [] \<and> unusedF = [] then None
      else (case outputFile opts of
              None \<Rightarrow> None
            | Some out \<Rightarrow>
                if out = [] then None
                else Some (out, build_report opts now files exports functions unusedE unusedF)))"

definition main ::
  "options \<Rightarrow> (string \<Rightarrow> string option) \<Rightarrow> string \<Rightarrow> string list \<Rightarrow> failure + scan" where
  "main opts readFile now files =
     (case first_pass (exportsOnly opts) readFile files ([], [], []) of
        None \<Rightarrow> Inl Never_returns
      | Some (exports, functions, fileContents) \<Rightarrow>
          (case check_exports opts fileContents exports of
             Inl e \<Rightarrow> Inl e
           | Inr unusedE \<Rightarrow>
               (case (if exportsOnly opts then Inr []
                      else check_functions exports fileContents functions) of
                  Inl e \<Rightarrow> Inl e
                | Inr unusedF \<Rightarrow>
                    Inr \<lparr>allExports = exports, allFunctions = functions,
                         foundExports = unusedE, foundFunctions = unusedF,
                         written = save_report opts now files exports functions unusedE unusedF\<rparr>)))"


section \<open>Properties of the matcher\<close>

lemma ends_seqs_Cons: "ends (seqs (r # rs)) st = concat (map (ends (seqs rs)) (ends r st))"
proof (cases rs)
  case Nil
  have "concat (map (\<lambda>x. [x]) xs) = xs" for xs :: "mstate list" by (induction xs) auto
  with Nil show ?thesis by (simp add: ends.simps(3)[abs_def])
next
  case (Cons a list)
  then show ?thesis by simp
qed

lemma in_ends_seqs_Cons:
  "x \<in> set (ends (seqs (r # rs)) st) \<longleftrightarrow> (\<exists>m \<in> set (ends r st). x \<in> set (ends (seqs rs) m))"
  by (auto simp: ends_seqs_Cons)

lemma in_ends_Atom:
  "x \<in> set (ends (Atom p) (pre, suf, caps)) \<longleftrightarrow>
     (\<exists>c cs. suf = c # cs \<and> p c \<and> x = (c # pre, cs, caps))"
  by (cases suf) auto

lemma in_ends_chr:
  "x \<in> set (ends (chr a) (pre, suf, caps)) \<longleftrightarrow> (\<exists>cs. suf = a # cs \<and> x = (a # pre, cs, caps))"
  by (auto simp: chr_def in_ends_Atom)

lemma in_ends_lit:
  "x \<in> set (ends (lit s) (pre, suf, caps)) \<longleftrightarrow> (\<exists>rest. suf = s @ rest \<and> x = (rev s @ pre, rest, caps))"
proof (induction s arbitrary: pre suf)
  case Nil
  then show ?case by (auto simp: lit_def)
next
  case (Cons a s)
  have "lit (a # s) = seqs (chr a # map chr s)" by (simp add: lit_def)
  then have "x \<in> set (ends (lit (a # s)) (pre, suf, caps)) \<longleftrightarrow>
    (\<exists>m \<in> set (ends (chr a) (pre, suf, caps)). x \<in> set (ends (lit s) m))"
    by (simp only: in_ends_seqs_Cons lit_def)
  also have "\<dots> \<longleftrightarrow> (\<exists>cs. suf = a # cs \<and> x \<in> set (ends (lit s) (a # pre, cs, caps)))"
    by (auto simp: in_ends_chr)
  also have "\<dots> \<longleftrightarrow> (\<exists>rest. suf = (a # s) @ rest \<and> x = (rev (a # s) @ pre, rest, caps))"
    by (auto simp: Cons.IH)
  finally show ?case .
qed

lemma ends_Star_self: "(pre, suf, caps) \<in> set (ends (Star r) (pre, suf, caps))"
  by (simp add: in_ends_Star)

lemma in_ends_Star_Atom:
  "x \<in> set (ends (Star (Atom p)) (pre, suf, caps)) \<longleftrightarrow>
     (\<exists>w rest. suf = w @ rest \<and> (\<forall>c \<in> set w. p c) \<and> x = (rev w @ pre, rest, caps))"
proof (induction suf arbitrary: pre)
  case Nil
  then show ?case by (auto simp: in_ends_Star)
next
  case (Cons a suf)
  show ?case
  proof
    assume "x \<in> set (ends (Star (Atom p)) (pre, a # suf, caps))"
    then consider "x = (pre, a # suf, caps)"
      | "p a" "x \<in> set (ends (Star (Atom p)) (a # pre, suf, caps))"
      by (auto simp: in_ends_Star[of x "Atom p" pre "a # suf"] split: if_splits)
    then show "\<exists>w rest. a # suf = w @ rest \<and> (\<forall>c \<in> set w. p c) \<and> x = (rev w @ pre, rest, caps)"
    proof cases
      case 1
      then have "a # suf = [] @ (a # suf) \<and> (\<forall>c \<in> set []. p c) \<and> x = (rev [] @ pre, a # suf, caps)"
        by simp
      then show ?thesis by blast
    next
      case 2
      from 2(2) Cons.IH[of "a # pre"] obtain w rest where
        "suf = w @ rest" "\<forall>c \<in> set w. p c" "x = (rev w @ a # pre, rest, caps)" by blast
      with 2(1) have "a # suf = (a # w) @ rest \<and> (\<forall>c \<in> set (a # w). p c) \<and>
          x = (rev (a # w) @ pre, rest, caps)" by simp
      then show ?thesis by blast
    qed
  next
    assume "\<exists>w rest. a # suf = w @ rest \<and> (\<forall>c \<in> set w. p c) \<and> x = (rev w @ pre, rest, caps)"
    then obtain w rest where w: "a # suf = w @ rest" "\<forall>c \<in> set w. p c" "x = (rev w @ pre, rest, caps)"
      by blast
    show "x \<in> set (ends (Star (Atom p)) (pre, a # suf, caps))"
    proof (cases w)
      case Nil
      with w have "x = (pre, a # suf, caps)" by simp
      then show ?thesis by (simp add: ends_Star_self)
    next
      case (Cons b w')
      with w have "suf = w' @ rest" "\<forall>c \<in> set w'. p c" "x = (rev w' @ a # pre, rest, caps)" "p a"
        by auto
      with Cons.IH[of "a # pre"] have "x \<in> set (ends (Star (Atom p)) (a # pre, suf, caps))" by blast
      with \<open>p a\<close> show ?thesis by (simp add: in_ends_Star[of x "Atom p" pre "a # suf"])
    qed
  qed
qed

lemma in_ends_Plus_Atom:
  "x \<in> set (ends (Plus (Atom p)) (pre, suf, caps)) \<longleftrightarrow>
     (\<exists>w rest. w \<noteq> [] \<and> suf = w @ rest \<and> (\<forall>c \<in> set w. p c) \<and> x = (rev w @ pre, rest, caps))"
proof
  assume "x \<in> set (ends (Plus (Atom p)) (pre, suf, caps))"
  then obtain c cs where c: "suf = c # cs" "p c" "x \<in> set (ends (Star (Atom p)) (c # pre, cs, caps))"
    by (auto simp: Plus_def in_ends_Atom)
  then obtain w rest where "cs = w @ rest" "\<forall>c \<in> set w. p c" "x = (rev w @ c # pre, rest, caps)"
    by (auto simp: in_ends_Star_Atom)
  with c have "c # w \<noteq> [] \<and> suf = (c # w) @ rest \<and> (\<forall>c \<in> set (c # w). p c) \<and>
     x = (rev (c # w) @ pre, rest, caps)" by simp
  then show "\<exists>w rest. w \<noteq> [] \<and> suf = w @ rest \<and> (\<forall>c \<in> set w. p c) \<and> x = (rev w @ pre, rest, caps)"
    by blast
next
  assume "\<exists>w rest. w \<noteq> [] \<and> suf = w @ rest \<and> (\<forall>c \<in> set w. p c) \<and> x = (rev w @ pre, rest, caps)"
  then obtain w rest where w: "w \<noteq> []" "suf = w @ rest" "\<forall>c \<in> set w. p c" "x = (rev w @ pre, rest, caps)"
    by blast
  then obtain c w' where cw: "w = c # w'" by (cases w) auto
  with w have "x \<in> set (ends (Star (Atom p)) (c # pre, w' @ rest, caps))"
    by (auto simp: in_ends_Star_Atom)
  with w cw show "x \<in> set (ends (Plus (Atom p)) (pre, suf, caps))"
    by (auto simp: Plus_def)
qed

lemma search_None_iff:
  "search r pre suf = None \<longleftrightarrow> (\<forall>u v. suf = u @ v \<longrightarrow> ends r (rev u @ pre, v, []) = [])"
proof (induction suf arbitrary: pre)
  case Nil
  then show ?case by (auto split: list.splits)
next
  case (Cons c cs)
  have "(\<forall>u v. c # cs = u @ v \<longrightarrow> ends r (rev u @ pre, v, []) = []) \<longleftrightarrow>
        ends r (pre, c # cs, []) = [] \<and> (\<forall>u v. cs = u @ v \<longrightarrow> ends r (rev u @ c # pre, v, []) = [])"
    (is "?L \<longleftrightarrow> ?R")
  proof
    assume l: ?L
    have "ends r (rev [] @ pre, c # cs, []) = []" using l by blast
    moreover have "ends r (rev u @ c # pre, v, []) = []" if "cs = u @ v" for u v
      using l[rule_format, of "c # u" v] that by simp
    ultimately show ?R by simp
  next
    assume r: ?R
    show ?L
    proof (intro allI impI)
      fix u v assume "c # cs = u @ v"
      then show "ends r (rev u @ pre, v, []) = []"
        using r by (cases u) auto
    qed
  qed
  with Cons.IH[of "c # pre"] show ?case by (auto split: list.splits)
qed

lemma match_g_Nil_iff: "match_g r pre suf = [] \<longleftrightarrow> search r pre suf = None"
  by (subst match_g.simps) (auto split: option.splits)

lemma test_iff: "test r s \<longleftrightarrow> (\<exists>u v. s = u @ v \<and> ends r (rev u, v, []) \<noteq> [])"
  using search_None_iff[of r "[]" s] by (auto simp: test_def)

lemma nonempty_iff: "xs \<noteq> [] \<longleftrightarrow> (\<exists>x. x \<in> set xs)"
  by (cases xs) auto

lemma index_here:
  "ends indexRegex (pre, v, caps) \<noteq> [] \<longleftrightarrow> v \<in> {''index.js'', ''index.jsx'', ''index.ts'', ''index.tsx''}"
  unfolding nonempty_iff
  by (auto simp: indexRegex_def in_ends_lit in_ends_chr in_ends_Atom)

lemma main_here:
  "ends mainRegex (pre, v, caps) \<noteq> [] \<longleftrightarrow> v \<in> {''main.js'', ''main.jsx'', ''main.ts'', ''main.tsx''}"
  unfolding nonempty_iff
  by (auto simp: mainRegex_def in_ends_lit in_ends_chr in_ends_Atom)

lemma table_cases:
  "(case map_of (zip xs ys) c of Some u \<Rightarrow> u | None \<Rightarrow> c) = c \<or>
   (case map_of (zip xs ys) c of Some u \<Rightarrow> u | None \<Rightarrow> c) \<in> set ys"
  by (auto split: option.splits dest!: map_of_SomeD set_zip_rightD)

lemma table_id: "c \<notin> set xs \<Longrightarrow> (case map_of (zip xs ys) c of Some u \<Rightarrow> u | None \<Rightarrow> c) = c"
  by (auto split: option.splits dest!: map_of_SomeD set_zip_leftD)

lemma to_upper_cases: "to_upper c = c \<or> to_upper c \<in> set upper_letters"
  unfolding to_upper_def by (rule table_cases)

lemma to_lower_id: "c \<notin> set upper_letters \<Longrightarrow> to_lower c = c"
  unfolding to_lower_def by (rule table_id)

lemma ignoring_case_set:
  assumes "\<forall>l \<in> set ls. l \<notin> set upper_letters"
  shows "ignoring_case (\<lambda>x. x \<in> set ls) c \<longleftrightarrow> to_lower c \<in> set ls"
proof -
  have "to_lower l = l" if "l \<in> set ls" for l using assms that by (auto intro: to_lower_id)
  moreover have "to_upper c \<in> set ls \<Longrightarrow> c \<in> set ls" using to_upper_cases[of c] assms by auto
  ultimately show ?thesis unfolding ignoring_case_def by metis
qed

lemma ignoring_case_eq:
  assumes "l \<notin> set upper_letters"
  shows "ignoring_case (\<lambda>x. x = l) c \<longleftrightarrow> to_lower c = l"
  using ignoring_case_set[of "[l]" c] assms by simp

lemma ignoring_case_jt:
  "ignoring_case (\<lambda>c. c = CHR ''j'' \<or> c = CHR ''t'') c \<longleftrightarrow> to_lower c = CHR ''j'' \<or> to_lower c = CHR ''t''"
  using ignoring_case_set[of "''jt''" c] by (simp add: upper_letters_def)

lemma app_here:
  "ends appRegex (pre, v, caps) \<noteq> [] \<longleftrightarrow>
     map to_lower v \<in> {''app.js'', ''app.jsx'', ''app.ts'', ''app.tsx''}"
  unfolding nonempty_iff
  by (auto simp: appRegex_def lit_def chr_def in_ends_Atom ignoring_case_eq ignoring_case_jt upper_letters_def)

lemma ex_split3:
  "(\<exists>u v. s = u @ v \<and> P v) \<or> (\<exists>u v. s = u @ v \<and> Q v) \<or> (\<exists>u v. s = u @ v \<and> R v) \<longleftrightarrow>
   (\<exists>u v. s = u @ v \<and> (P v \<or> Q v \<or> R v))"
  by blast

lemma is_entry_point_iff:
  "is_entry_point p \<longleftrightarrow>
     (\<exists>dir e. p = dir @ e \<and>
        (e \<in> {''index.js'', ''index.jsx'', ''index.ts'', ''index.tsx''} \<or>
         e \<in> {''main.js'', ''main.jsx'', ''main.ts'', ''main.tsx''} \<or>
         map to_lower e \<in> {''app.js'', ''app.jsx'', ''app.ts'', ''app.tsx''}))"
  unfolding is_entry_point_def test_iff index_here main_here app_here by (rule ex_split3)


fun group_free :: "regex \<Rightarrow> bool" where
  "group_free (Group n r) = False"
| "group_free (Seq r1 r2) = (group_free r1 \<and> group_free r2)"
| "group_free (Alt r1 r2) = (group_free r1 \<and> group_free r2)"
| "group_free (Star r) = group_free r"
| "group_free (Opt r) = group_free r"
| "group_free r = True"

lemma ends_group_free: "x \<in> set (ends r st) \<Longrightarrow> group_free r \<Longrightarrow> snd (snd x) = snd (snd st)"
proof (induction r st arbitrary: x rule: ends.induct)
  case (1 p pre caps)
  then show ?case by simp
next
  case (2 p pre c cs caps)
  then show ?case by (auto split: if_splits)
next
  case (3 st)
  then show ?case by simp
next
  case (4 r1 r2 st)
  from "4.prems" obtain m where m: "m \<in> set (ends r1 st)" "x \<in> set (ends r2 m)" by auto
  from "4.IH"(1)[OF m(1)] "4.IH"(2)[OF m(1) m(2)] "4.prems"(2) show ?case by simp
next
  case (5 r1 r2 st)
  from "5.prems" have "x \<in> set (ends r1 st) \<or> x \<in> set (ends r2 st)" by simp
  with "5.IH" "5.prems"(2) show ?case by (metis group_free.simps(3))
next
  case (6 r pre suf caps)
  from "6.prems"(1) consider (stop) "x = (pre, suf, caps)"
    | (iter) m where
        "m \<in> set (filter (\<lambda>(pre', suf', caps'). length suf' < length suf) (ends r (pre, suf, caps)))"
        "x \<in> set (ends (Star r) m)"
    unfolding in_ends_Star by (auto simp: case_prod_beta)
  then show ?case
  proof cases
    case stop
    then show ?thesis by simp
  next
    case iter
    from iter(1) have "m \<in> set (ends r (pre, suf, caps))" by simp
    from "6.IH"(1)[OF this] "6.IH"(2)[OF iter(1) iter(2)] "6.prems"(2) show ?thesis by simp
  qed
next
  case (7 r pre suf caps)
  from "7.prems" have "x = (pre, suf, caps) \<or> x \<in> set (ends r (pre, suf, caps))" by auto
  with "7.IH" "7.prems"(2) show ?case by (metis group_free.simps(5))
next
  case (8 n r pre suf caps)
  then show ?case by simp
next
  case (9 pre suf caps)
  then show ?case by (simp split: if_splits)
next
  case (10 pre suf caps)
  then show ?case by (simp split: if_splits)
next
  case (11 pre suf caps)
  then show ?case by (simp split: if_splits)
next
  case (12 r pre suf caps)
  from "12.prems" have "x = (pre, suf, caps)" by (simp split: if_splits)
  then show ?case by simp
qed

lemma group_free_lit [simp]: "group_free (lit s)"
proof (induction s)
  case Nil
  then show ?case by (simp add: lit_def)
next
  case (Cons a s)
  then show ?case by (cases s) (simp_all add: lit_def chr_def)
qed

lemma ends_state:
  assumes "x \<in> set (ends r (pre, suf, caps))"
  obtains w rest caps' where "suf = w @ rest" "x = (rev w @ pre, rest, caps')"
proof -
  from ends_extends[OF assms] obtain w where "suf = w @ fst (snd x)" "fst x = rev w @ pre"
    by (auto simp: extends_def)
  then have "suf = w @ fst (snd x)" "x = (rev w @ pre, fst (snd x), snd (snd x))"
    by (cases x; simp)+
  then show thesis by (rule that)
qed

lemma ends_state_group_free:
  assumes "x \<in> set (ends r (pre, suf, caps))" "group_free r"
  obtains w rest where "suf = w @ rest" "x = (rev w @ pre, rest, caps)"
proof -
  from assms(1) obtain w rest caps' where a: "suf = w @ rest" "x = (rev w @ pre, rest, caps')"
    by (rule ends_state)
  from ends_group_free[OF assms] a have "caps' = caps" by simp
  with a show thesis by (intro that) auto
qed

lemma in_ends_Group:
  "x \<in> set (ends (Group k r) (pre, suf, caps)) \<longleftrightarrow>
     (\<exists>pre' suf' caps'. (pre', suf', caps') \<in> set (ends r (pre, suf, caps)) \<and>
        x = (pre', suf', (k, rev (take (length pre' - length pre) pre')) # caps'))"
  by (force simp: image_iff)

lemma in_ends_Group_Plus_Atom:
  "x \<in> set (ends (Group k (Plus (Atom p))) (pre, suf, caps)) \<longleftrightarrow>
     (\<exists>w rest. w \<noteq> [] \<and> suf = w @ rest \<and> (\<forall>c \<in> set w. p c) \<and> x = (rev w @ pre, rest, (k, w) # caps))"
  unfolding in_ends_Group in_ends_Plus_Atom by auto

lemma space_not_word: "is_space c \<Longrightarrow> \<not> is_word c"
  by (auto simp: is_space_def is_word_def)

lemma space_not_paren: "is_space c \<Longrightarrow> c \<noteq> CHR ''(''"
  by (auto simp: is_space_def)

lemma word_source_char: "is_word c \<Longrightarrow> source_char c = Some (chr c)"
  by (auto simp: is_word_def source_char_def)

lemma word_name_pattern: "\<forall>c \<in> set n. is_word c \<Longrightarrow> name_pattern n = Some (map chr n)"
  by (induction n) (auto simp: word_source_char)

lemma in_ends_seqs_chrs:
  "rs \<noteq> [] \<Longrightarrow> x \<in> set (ends (seqs (map chr n @ rs)) (pre, suf, caps)) \<longleftrightarrow>
     (\<exists>rest. suf = n @ rest \<and> x \<in> set (ends (seqs rs) (rev n @ pre, rest, caps)))"
proof (induction n arbitrary: pre suf)
  case Nil
  then show ?case by simp
next
  case (Cons a n)
  have "x \<in> set (ends (seqs (map chr (a # n) @ rs)) (pre, suf, caps)) \<longleftrightarrow>
        (\<exists>m \<in> set (ends (chr a) (pre, suf, caps)). x \<in> set (ends (seqs (map chr n @ rs)) m))"
    by (simp only: list.map append_Cons in_ends_seqs_Cons)
  also have "\<dots> \<longleftrightarrow> (\<exists>cs. suf = a # cs \<and> x \<in> set (ends (seqs (map chr n @ rs)) (a # pre, cs, caps)))"
    by (auto simp: in_ends_chr)
  also have "\<dots> \<longleftrightarrow> (\<exists>rest. suf = (a # n) @ rest \<and> x \<in> set (ends (seqs rs) (rev (a # n) @ pre, rest, caps)))"
    by (auto simp: Cons.IH[OF Cons.prems])
  finally show ?case .
qed

text \<open>The shape of the text around a name captured by a binding or function pattern.\<close>

definition name_site :: "string \<Rightarrow> string \<Rightarrow> bool" where
  "name_site n text \<longleftrightarrow>
     (\<exists>before b c after. text = before @ [b] @ n @ [c] @ after \<and> is_space b \<and>
        n \<noteq> [] \<and> (\<forall>ch \<in> set n. is_word ch) \<and> (is_space c \<or> c = CHR ''=''))"

lemma binding_shape:
  assumes x: "x \<in> set (ends (seqs [kw, Plus sp, Group 1 (Plus wd), Star sp, chr CHR ''='', tail])
                      (pre, suf, caps))"
    and gf: "group_free kw" "group_free tail"
  shows "\<exists>n. snd (snd x) = (1, n) # caps \<and> name_site n (rev pre @ suf)"
proof -
  from x obtain m1 m2 m3 m4 m5 where
    m1: "m1 \<in> set (ends kw (pre, suf, caps))" and
    m2: "m2 \<in> set (ends (Plus sp) m1)" and
    m3: "m3 \<in> set (ends (Group 1 (Plus wd)) m2)" and
    m4: "m4 \<in> set (ends (Star sp) m3)" and
    m5: "m5 \<in> set (ends (chr CHR ''='') m4)" and
    xt: "x \<in> set (ends tail m5)"
    by (auto simp: in_ends_seqs_Cons)
  from m1 gf(1) obtain w1 s1 where 1: "suf = w1 @ s1" "m1 = (rev w1 @ pre, s1, caps)"
    by (rule ends_state_group_free)
  from m2 1 obtain ws s2 where 2: "ws \<noteq> []" "s1 = ws @ s2" "\<forall>c \<in> set ws. is_space c"
    "m2 = (rev ws @ rev w1 @ pre, s2, caps)"
    by (auto simp: in_ends_Plus_Atom)
  from m3[unfolded 2(4) in_ends_Group_Plus_Atom]
  obtain n s3 where 3: "n \<noteq> []" "s2 = n @ s3" "\<forall>c \<in> set n. is_word c"
    "m3 = (rev n @ rev ws @ rev w1 @ pre, s3, (1, n) # caps)"
    by auto
  from m4 3 obtain ws' s4 where 4: "s3 = ws' @ s4" "\<forall>c \<in> set ws'. is_space c"
    "m4 = (rev ws' @ rev n @ rev ws @ rev w1 @ pre, s4, (1, n) # caps)"
    by (auto simp: in_ends_Star_Atom)
  from m5 4 obtain s5 where 5: "s4 = CHR ''='' # s5"
    "m5 = (CHR ''='' # rev ws' @ rev n @ rev ws @ rev w1 @ pre, s5, (1, n) # caps)"
    by (auto simp: in_ends_chr)
  from ends_group_free[OF xt gf(2)] 5 have caps: "snd (snd x) = (1, n) # caps" by simp
  from 2(1) obtain ws0 b where b: "ws = ws0 @ [b]" by (cases ws rule: rev_cases) auto
  with 2(3) have sb: "is_space b" by simp
  obtain c after where c: "s3 = c # after" "is_space c \<or> c = CHR ''=''"
    using 4 5 by (cases ws') auto
  have "rev pre @ suf = (rev pre @ w1 @ ws0) @ [b] @ n @ [c] @ after"
    using 1 2 3 b c by simp
  with sb 3 c(2) have "name_site n (rev pre @ suf)"
    unfolding name_site_def by blast
  with caps show ?thesis by blast
qed

lemma search_Some:
  "search r pre suf = Some (start, m) \<Longrightarrow>
     \<exists>u v. suf = u @ v \<and> start = rev u @ pre \<and> m \<in> set (ends r (start, v, []))"
proof (induction suf arbitrary: pre)
  case Nil
  then have "start = rev [] @ pre \<and> m \<in> set (ends r (start, [], []))"
    by (auto split: list.splits)
  then show ?case by blast
next
  case (Cons c cs)
  show ?case
  proof (cases "ends r (pre, c # cs, [])")
    case Nil
    with Cons.prems have "search r (c # pre) cs = Some (start, m)" by simp
    from Cons.IH[OF this] obtain u v where "cs = u @ v" "start = rev u @ c # pre"
      "m \<in> set (ends r (start, v, []))" by blast
    then have "c # cs = (c # u) @ v \<and> start = rev (c # u) @ pre \<and> m \<in> set (ends r (start, v, []))"
      by simp
    then show ?thesis by blast
  next
    case (Cons m' rest)
    with Cons.prems have "start = pre" "m' = m" by auto
    with Cons have "c # cs = [] @ (c # cs) \<and> start = rev [] @ pre \<and>
       m \<in> set (ends r (start, c # cs, []))" by simp
    then show ?thesis by blast
  qed
qed

lemma exec_all_found:
  "exec_all r pre suf = Some ms \<Longrightarrow> m \<in> set ms \<Longrightarrow>
     \<exists>u v x. suf = u @ v \<and> x \<in> set (ends r (rev u @ pre, v, [])) \<and> snd m = snd (snd x)"
proof (induction r pre suf arbitrary: ms rule: exec_all.induct)
  case (1 r pre suf)
  show ?case
  proof (cases "search r pre suf")
    case None
    with "1.prems" show ?thesis by (simp add: exec_all.simps[of r pre suf])
  next
    case (Some a)
    obtain start pre' suf' caps' where a: "a = (start, pre', suf', caps')" by (cases a) auto
    from "1.prems"(1) Some a have less: "length suf' < length suf"
      by (auto simp: exec_all.simps[of r pre suf] split: if_splits)
    with "1.prems"(1) Some a obtain ms' where
      ms': "exec_all r pre' suf' = Some ms'" "ms = (matched_text start (pre', suf', caps'), caps') # ms'"
      by (auto simp: exec_all.simps[of r pre suf])
    from search_Some[of r pre suf start "(pre', suf', caps')"] Some a obtain u v where
      uv: "suf = u @ v" "start = rev u @ pre" "(pre', suf', caps') \<in> set (ends r (start, v, []))"
      by auto
    from "1.prems"(2) ms' consider "m = (matched_text start (pre', suf', caps'), caps')" | "m \<in> set ms'"
      by auto
    then show ?thesis
    proof cases
      case 1
      with uv show ?thesis by force
    next
      case 2
      from "1.IH"[OF Some a[symmetric] refl refl less ms'(1) 2]
      obtain u' v' x where x: "suf' = u' @ v'" "x \<in> set (ends r (rev u' @ pre', v', []))"
        "snd m = snd (snd x)" by blast
      from uv(3) obtain w where w: "v = w @ suf'" "pre' = rev w @ start"
        by (auto elim: ends_state)
      with uv x have "suf = (u @ w @ u') @ v' \<and> x \<in> set (ends r (rev (u @ w @ u') @ pre, v', [])) \<and>
         snd m = snd (snd x)" by simp
      then show ?thesis by blast
    qed
  qed
qed

lemma group_hd: "snd m = (1, n) # caps \<Longrightarrow> group 1 m = n"
  by (simp add: group_def capture_def)

lemma arrowRegex_shape:
  "arrowRegex = seqs [alts [lit ''const'', lit ''let'', lit ''var''], Plus sp, Group 1 (Plus wd), Star sp,
       chr CHR ''='',
       seqs [Star sp, Opt (seqs [lit ''async'', Star sp]),
             chr CHR ''('', Star (Atom (\<lambda>c. c \<noteq> CHR '')'')), chr CHR '')'', Star sp, lit ''=>'']]"
  by (simp add: arrowRegex_def)

lemma arrowSimpleRegex_shape:
  "arrowSimpleRegex = seqs [alts [lit ''const'', lit ''let'', lit ''var''], Plus sp, Group 1 (Plus wd), Star sp,
       chr CHR ''='',
       seqs [Star sp, Opt (seqs [lit ''async'', Star sp]), Plus wd, Star sp, lit ''=>'']]"
  by (simp add: arrowSimpleRegex_def)

lemma arrow_match_site:
  assumes "exec_all r [] content = Some ms" "m \<in> set ms" "r = arrowRegex \<or> r = arrowSimpleRegex"
  shows "name_site (group 1 m) content"
proof -
  from exec_all_found[OF assms(1,2)] obtain u v x where
    x: "content = u @ v" "x \<in> set (ends r (rev u @ [], v, []))" "snd m = snd (snd x)" by blast
  have kw: "group_free (alts [lit ''const'', lit ''let'', lit ''var''])" by simp
  have t1: "group_free (seqs [Star sp, Opt (seqs [lit ''async'', Star sp]),
             chr CHR ''('', Star (Atom (\<lambda>c. c \<noteq> CHR '')'')), chr CHR '')'', Star sp, lit ''=>''])"
    by (simp add: chr_def)
  have t2: "group_free (seqs [Star sp, Opt (seqs [lit ''async'', Star sp]), Plus wd, Star sp, lit ''=>''])"
    by (simp add: Plus_def)
  from assms(3) have "\<exists>n. snd (snd x) = (1, n) # [] \<and> name_site n (rev (rev u @ []) @ v)"
  proof
    assume r: "r = arrowRegex"
    from x(2)[unfolded r arrowRegex_shape] show ?thesis by (rule binding_shape[OF _ kw t1])
  next
    assume r: "r = arrowSimpleRegex"
    from x(2)[unfolded r arrowSimpleRegex_shape] show ?thesis by (rule binding_shape[OF _ kw t2])
  qed
  then obtain n where "snd (snd x) = [(1, n)]" "name_site n content" using x(1) by auto
  with x(3) group_hd[of m n "[]"] show ?thesis by simp
qed

lemma ref_found:
  assumes "name_site n content"
  shows "\<exists>rre. refRegex n = Some rre \<and> match_g rre [] content \<noteq> []"
proof -
  from assms obtain before b c after where
    t: "content = before @ [b] @ n @ [c] @ after" and b: "is_space b" and
    n: "n \<noteq> []" "\<forall>ch \<in> set n. is_word ch" and c: "is_space c \<or> c = CHR ''=''"
    unfolding name_site_def by blast
  let ?A = "Atom (\<lambda>c. \<not> is_word c)" and ?B = "Atom (\<lambda>c. \<not> is_word c \<and> c \<noteq> CHR ''('')"
  let ?rre = "seqs ([?A] @ map chr n @ [?B])"
  have re: "refRegex n = Some ?rre" by (simp add: refRegex_def word_name_pattern[OF n(2)])
  have nb: "\<not> is_word b" using b by (rule space_not_word)
  have "\<not> is_word CHR ''=''" by (simp add: is_word_def)
  with c have nc: "\<not> is_word c \<and> c \<noteq> CHR ''(''"
    using space_not_word[of c] space_not_paren[of c] by blast
  have "(c # rev n @ b # rev before, after, []) \<in> set (ends (seqs [?B]) (rev n @ b # rev before, c # after, []))"
    using nc by simp
  then have "(c # rev n @ b # rev before, after, [])
      \<in> set (ends (seqs (map chr n @ [?B])) (b # rev before, n @ c # after, []))"
    by (subst in_ends_seqs_chrs) auto
  then have "(c # rev n @ b # rev before, after, [])
      \<in> set (ends ?rre (rev before, [b] @ n @ [c] @ after, []))"
    using nb by (simp add: in_ends_seqs_Cons)
  then have ne: "ends ?rre (rev before @ [], [b] @ n @ [c] @ after, []) \<noteq> []" by auto
  have "search ?rre [] content \<noteq> None"
  proof
    assume "search ?rre [] content = None"
    then have "\<forall>u v. content = u @ v \<longrightarrow> ends ?rre (rev u @ [], v, []) = []"
      by (simp only: search_None_iff)
    from this[rule_format, OF t] ne show False by simp
  qed
  then have "match_g ?rre [] content \<noteq> []" by (simp add: match_g_Nil_iff)
  with re show ?thesis by blast
qed

lemma extractFunctions_decl:
  assumes "extractFunctions content f = Some fs" "d \<in> set fs"
  shows "file_path d = f \<and>
     (\<exists>r ms m. exec_all r [] content = Some ms \<and> m \<in> set ms \<and> name d = group 1 m \<and>
        (type d = Function \<and> r = funcRegex \<or>
         type d = Arrow \<and> (r = arrowRegex \<or> r = arrowSimpleRegex)))"
proof -
  from assms(1) obtain funcs arrows simples where
    e: "exec_all funcRegex [] content = Some funcs" "exec_all arrowRegex [] content = Some arrows"
       "exec_all arrowSimpleRegex [] content = Some simples" and
    fs: "fs = map (\<lambda>m. \<lparr>name = group 1 m, type = Function, file_path = f\<rparr>) funcs
           @ map (\<lambda>m. \<lparr>name = group 1 m, type = Arrow, file_path = f\<rparr>) arrows
           @ map (\<lambda>m. \<lparr>name = group 1 m, type = Arrow, file_path = f\<rparr>) simples"
    by (auto simp: extractFunctions_def split: bind_splits)
  from assms(2) fs consider
      (func) m where "m \<in> set funcs" "d = \<lparr>name = group 1 m, type = Function, file_path = f\<rparr>"
    | (arrow) m where "m \<in> set arrows" "d = \<lparr>name = group 1 m, type = Arrow, file_path = f\<rparr>"
    | (simple) m where "m \<in> set simples" "d = \<lparr>name = group 1 m, type = Arrow, file_path = f\<rparr>"
    by auto
  then show ?thesis
  proof cases
    case func
    with e(1) have "exec_all funcRegex [] content = Some funcs \<and> m \<in> set funcs \<and>
      name d = group 1 m \<and> type d = Function \<and> file_path d = f" by simp
    then show ?thesis by blast
  next
    case arrow
    with e(2) have "exec_all arrowRegex [] content = Some arrows \<and> m \<in> set arrows \<and>
      name d = group 1 m \<and> type d = Arrow \<and> file_path d = f" by simp
    then show ?thesis by blast
  next
    case simple
    with e(3) have "exec_all arrowSimpleRegex [] content = Some simples \<and> m \<in> set simples \<and>
      name d = group 1 m \<and> type d = Arrow \<and> file_path d = f" by simp
    then show ?thesis by blast
  qed
qed

lemma arrow_not_unused:
  assumes "extractFunctions content f = Some fs" "d \<in> set fs" "type d = Arrow"
    "map_of fc f = Some content"
  shows "function_unused ex fc d \<noteq> Inr True"
proof -
  from extractFunctions_decl[OF assms(1,2)] assms(3) obtain r ms m where
    d: "file_path d = f" "exec_all r [] content = Some ms" "m \<in> set ms" "name d = group 1 m"
       "r = arrowRegex \<or> r = arrowSimpleRegex"
    by auto
  from arrow_match_site[OF d(2,3,5)] d(4) have "name_site (name d) content" by simp
  from ref_found[OF this] obtain rre where "refRegex (name d) = Some rre" "match_g rre [] content \<noteq> []"
    by blast
  with d(1) assms(4) show ?thesis
    by (auto simp: function_unused_def Let_def split: option.splits if_splits)
qed

lemma map_of_map_set: "map_of (map_set k v m) = (map_of m)(k \<mapsto> v)"
  by (induction m) (auto simp: fun_eq_iff)

lemma first_pass_contents:
  "first_pass eo rf files (E, F, C) = Some (E', F', C') \<Longrightarrow>
     map_of C' k = (if k \<in> set files \<and> rf k \<noteq> None then rf k else map_of C k)"
proof (induction files arbitrary: E F C)
  case Nil
  then show ?case by simp
next
  case (Cons f files)
  show ?case
  proof (cases "rf f")
    case None
    with Cons.prems have "first_pass eo rf files (E, F, C) = Some (E', F', C')" by simp
    from Cons.IH[OF this] None show ?thesis by auto
  next
    case (Some content)
    with Cons.prems obtain E1 F1 where
      "first_pass eo rf files (E1, F1, map_set f content C) = Some (E', F', C')"
      by (auto split: option.splits if_splits)
    from Cons.IH[OF this] Some show ?thesis by (auto simp: map_of_map_set)
  qed
qed

lemma first_pass_functions:
  "first_pass eo rf files (E, F, C) = Some (E', F', C') \<Longrightarrow> d \<in> set F' \<Longrightarrow>
     d \<in> set F \<or>
     (\<exists>f \<in> set files. \<exists>content fs. rf f = Some content \<and>
        extractFunctions content f = Some fs \<and> d \<in> set fs)"
proof (induction files arbitrary: E F C)
  case Nil
  then show ?case by simp
next
  case (Cons f files)
  show ?case
  proof (cases "rf f")
    case None
    with Cons.prems have "first_pass eo rf files (E, F, C) = Some (E', F', C')" by simp
    from Cons.IH[OF this Cons.prems(2)] show ?thesis by auto
  next
    case (Some content)
    with Cons.prems(1) consider
        (eo) E1 where "first_pass eo rf files (E1, F, map_set f content C) = Some (E', F', C')"
      | (fn) E1 fs where "extractFunctions content f = Some fs"
          "first_pass eo rf files (E1, F @ fs, map_set f content C) = Some (E', F', C')"
      by (auto split: option.splits if_splits)
    then show ?thesis
    proof cases
      case eo
      from Cons.IH[OF this Cons.prems(2)] show ?thesis by auto
    next
      case fn
      from Cons.IH[OF fn(2) Cons.prems(2)] fn(1) Some show ?thesis by auto
    qed
  qed
qed

lemma first_pass_exports:
  "first_pass eo rf files (E, F, C) = Some (E', F', C') \<Longrightarrow> d \<in> set E' \<Longrightarrow>
     d \<in> set E \<or>
     (\<exists>f \<in> set files. \<exists>content es. rf f = Some content \<and>
        extractExports content f = Some es \<and> d \<in> set es)"
proof (induction files arbitrary: E F C)
  case Nil
  then show ?case by simp
next
  case (Cons f files)
  show ?case
  proof (cases "rf f")
    case None
    with Cons.prems have "first_pass eo rf files (E, F, C) = Some (E', F', C')" by simp
    from Cons.IH[OF this Cons.prems(2)] show ?thesis by auto
  next
    case (Some content)
    with Cons.prems(1) obtain es F1 where es: "extractExports content f = Some es"
          "first_pass eo rf files (E @ es, F1, map_set f content C) = Some (E', F', C')"
      by (auto split: option.splits if_splits)
    from Cons.IH[OF es(2) Cons.prems(2)] es(1) Some show ?thesis by auto
  qed
qed


subsection \<open>Splitting and trimming\<close>













lemma ends_SeqE:
  assumes "x \<in> set (ends (Seq r1 r2) st)"
  obtains m where "m \<in> set (ends r1 st)" "x \<in> set (ends r2 m)"
  using assms by auto

lemma asRegex_ends_shape:
  assumes "x \<in> set (ends asRegex (pre, suf, caps))"
  shows "\<exists>w1 w2 rest. w1 \<noteq> [] \<and> w2 \<noteq> [] \<and> (\<forall>c \<in> set w1. is_space c) \<and> (\<forall>c \<in> set w2. is_space c) \<and>
        suf = w1 @ ''as'' @ w2 @ rest \<and> x = (rev w2 @ ''sa'' @ rev w1 @ pre, rest, caps)"
proof -
  have a: "asRegex = Seq (Plus sp) (Seq (lit ''as'') (Plus sp))" by (simp add: asRegex_def)
  from assms[unfolded a] obtain m1 where m1: "m1 \<in> set (ends (Plus sp) (pre, suf, caps))"
    and "x \<in> set (ends (Seq (lit ''as'') (Plus sp)) m1)"
    by (rule ends_SeqE)
  then obtain m2 where m2: "m2 \<in> set (ends (lit ''as'') m1)" and x: "x \<in> set (ends (Plus sp) m2)"
    by (elim ends_SeqE)
  from m1 obtain w1 r1 where 1: "w1 \<noteq> []" "suf = w1 @ r1" "\<forall>c \<in> set w1. is_space c"
    "m1 = (rev w1 @ pre, r1, caps)"
    unfolding in_ends_Plus_Atom by blast
  from m2[unfolded 1(4) in_ends_lit] obtain r2 where 2: "r1 = ''as'' @ r2"
    "m2 = (rev ''as'' @ rev w1 @ pre, r2, caps)" by blast
  from x[unfolded 2(2) in_ends_Plus_Atom] obtain w2 rest where 3: "w2 \<noteq> []" "r2 = w2 @ rest"
    "\<forall>c \<in> set w2. is_space c" "x = (rev w2 @ rev ''as'' @ rev w1 @ pre, rest, caps)" by blast
  from 1 2 3 have "w1 \<noteq> [] \<and> w2 \<noteq> [] \<and> (\<forall>c \<in> set w1. is_space c) \<and> (\<forall>c \<in> set w2. is_space c) \<and>
        suf = w1 @ ''as'' @ w2 @ rest \<and> x = (rev w2 @ ''sa'' @ rev w1 @ pre, rest, caps)" by simp
  then show ?thesis by blast
qed



subsection \<open>Export lists\<close>














subsection \<open>The extractors always return\<close>

fun consumes :: "regex \<Rightarrow> bool" where
  "consumes (Atom p) = True"
| "consumes (Seq r1 r2) = (consumes r1 \<or> consumes r2)"
| "consumes (Alt r1 r2) = (consumes r1 \<and> consumes r2)"
| "consumes (Group n r) = consumes r"
| "consumes r = False"

lemma extends_length: "extends st x \<Longrightarrow> length (fst (snd x)) \<le> length (fst (snd st))"
  by (auto simp: extends_def)

lemma ends_consumes:
  "x \<in> set (ends r st) \<Longrightarrow> consumes r \<Longrightarrow> length (fst (snd x)) < length (fst (snd st))"
proof (induction r arbitrary: x st)
  case (Atom p)
  obtain pre suf caps where st: "st = (pre, suf, caps)" by (cases st) auto
  with Atom show ?case by (cases suf) (auto split: if_splits)
next
  case (Seq r1 r2)
  from Seq.prems(1) obtain m where m: "m \<in> set (ends r1 st)" "x \<in> set (ends r2 m)"
    by (rule ends_SeqE)
  from m have le: "length (fst (snd m)) \<le> length (fst (snd st))"
    "length (fst (snd x)) \<le> length (fst (snd m))"
    by (auto dest!: ends_extends extends_length)
  from Seq.prems(2) consider "consumes r1" | "consumes r2" by auto
  then show ?case
  proof cases
    case 1
    from Seq.IH(1)[OF m(1) 1] le show ?thesis by simp
  next
    case 2
    from Seq.IH(2)[OF m(2) 2] le show ?thesis by simp
  qed
next
  case (Alt r1 r2)
  from Alt.prems(1) have "x \<in> set (ends r1 st) \<or> x \<in> set (ends r2 st)" by simp
  moreover from Alt.prems(2) have "consumes r1" "consumes r2" by simp_all
  ultimately show ?case using Alt.IH by blast
next
  case (Group n r)
  obtain pre suf caps where st: "st = (pre, suf, caps)" by (cases st) auto
  from Group.prems(1)[unfolded st in_ends_Group] obtain pre' suf' caps' where
    m: "(pre', suf', caps') \<in> set (ends r (pre, suf, caps))"
    "x = (pre', suf', (n, rev (take (length pre' - length pre) pre')) # caps')" by blast
  from Group.IH[OF m(1)] Group.prems(2) m(2) st show ?case by simp
qed simp_all

lemma exec_all_total: "consumes r \<Longrightarrow> exec_all r pre suf \<noteq> None"
proof (induction "length suf" arbitrary: pre suf rule: less_induct)
  case less
  show ?case
  proof (cases "search r pre suf")
    case None
    then show ?thesis by (simp add: exec_all.simps[of r pre suf])
  next
    case (Some a)
    obtain start pre' suf' caps' where a: "a = (start, pre', suf', caps')" by (cases a) auto
    from search_Some[of r pre suf start "(pre', suf', caps')"] Some a obtain u v where
      uv: "suf = u @ v" "(pre', suf', caps') \<in> set (ends r (start, v, []))" by auto
    from ends_consumes[OF uv(2) less.prems] uv(1) have lt: "length suf' < length suf" by simp
    from less.hyps[OF lt less.prems] obtain ms where "exec_all r pre' suf' = Some ms" by blast
    with Some a lt show ?thesis by (simp add: exec_all.simps[of r pre suf])
  qed
qed

lemma consumes_patterns:
  "consumes namedExportRegex" "consumes exportListRegex" "consumes defaultNamedRegex"
  "consumes funcRegex" "consumes arrowRegex" "consumes arrowSimpleRegex"
  "consumes namedImportRegex" "consumes defaultImportRegex" "consumes namespaceImportRegex"
  "consumes requireRegex"
  by (simp_all add: namedExportRegex_def exportListRegex_def defaultNamedRegex_def funcRegex_def
      arrowRegex_def arrowSimpleRegex_def namedImportRegex_def defaultImportRegex_def
      namespaceImportRegex_def requireRegex_def lit_def chr_def)



lemma findImports_total: "\<exists>s. findImports content = Some s"
  using exec_all_total[OF consumes_patterns(7), of "[]" content]
    exec_all_total[OF consumes_patterns(8), of "[]" content]
    exec_all_total[OF consumes_patterns(9), of "[]" content]
    exec_all_total[OF consumes_patterns(10), of "[]" content]
  by (auto simp: findImports_def)

subsection \<open>The first pass in closed form\<close>










section \<open>Example runs\<close>

text \<open>
  The scenario of the specification: \<open>src/util.ts\<close> exports \<open>helper\<close> (and here also holds a
  local function), \<open>src/main.ts\<close> is an entry point. The scan root is \<open>.\<close>, so
  \<open>path.relative\<close> leaves the paths as they are.
\<close>

definition demo_opts :: options where
  "demo_opts = \<lparr>exportsOnly = False, outputFile = Some ''dead-code.json'', relative = (\<lambda>p. p)\<rparr>"

definition demo_files :: "string list" where
  "demo_files = [''src/util.ts'', ''src/main.ts'']"

definition demo_fs :: "string \<Rightarrow> string option" where
  "demo_fs =
     map_of [(''src/util.ts'', ''export function helper(){ return 1; } function local(){}''),
             (''src/main.ts'', ''export const unused = 2;'')]"

definition helper_decl :: decl where
  "helper_decl = \<lparr>name = ''helper'', type = Named, file_path = ''src/util.ts''\<rparr>"

definition unused_decl :: decl where
  "unused_decl = \<lparr>name = ''unused'', type = Named, file_path = ''src/main.ts''\<rparr>"

definition local_decl :: decl where
  "local_decl = \<lparr>name = ''local'', type = Function, file_path = ''src/util.ts''\<rparr>"

definition demo_scan :: scan where
  "demo_scan =
     \<lparr>allExports = [helper_decl, unused_decl], allFunctions = [local_decl],
      foundExports = [helper_decl], foundFunctions = [local_decl],
      written = Some (''dead-code.json'',
        \<lparr>timestamp = ''T'', filesScanned = 2, totalExports = 2, totalFunctions = Some 1,
         unusedExports = [helper_decl], unusedFunctions = Some [local_decl]\<rparr>)\<rparr>"

definition demo_scan_exports_only :: scan where
  "demo_scan_exports_only =
     \<lparr>allExports = [helper_decl, unused_decl], allFunctions = [],
      foundExports = [helper_decl], foundFunctions = [],
      written = Some (''dead-code.json'',
        \<lparr>timestamp = ''T'', filesScanned = 2, totalExports = 2, totalFunctions = None,
         unusedExports = [helper_decl], unusedFunctions = None\<rparr>)\<rparr>"

lemma demo_run: "main demo_opts demo_fs ''T'' demo_files = Inr demo_scan"
  by code_simp

lemma demo_run_exports_only:
  "main (demo_opts\<lparr>exportsOnly := True\<rparr>) demo_fs ''T'' demo_files = Inr demo_scan_exports_only"
  by code_simp

section \<open>The two loops of the second pass\<close>

lemma check_functions_filter:
  "check_functions ex fc fs = Inr us \<Longrightarrow>
     us = filter (\<lambda>f. function_unused ex fc f = Inr True) fs"
  by (induction fs arbitrary: us) (auto split: sum.splits if_splits)

lemma check_exports_filter:
  "check_exports opts fc es = Inr us \<Longrightarrow>
     us = filter (\<lambda>e. \<not> is_entry_point (relative opts (file_path e)) \<and> total_usages e fc = Inr 0) es"
  by (induction es arbitrary: us) (auto split: sum.splits if_splits)

lemma main_Inr:
  assumes "main opts readFile now files = Inr r"
  shows "\<exists>fc.
    first_pass (exportsOnly opts) readFile files ([], [], []) = Some (allExports r, allFunctions r, fc) \<and>
    check_exports opts fc (allExports r) = Inr (foundExports r) \<and>
    (if exportsOnly opts then Inr [] else check_functions (allExports r) fc (allFunctions r))
       = Inr (foundFunctions r) \<and>
    written r = save_report opts now files (allExports r) (allFunctions r) (foundExports r) (foundFunctions r)"
  using assms unfolding main_def
  by (auto split: option.splits sum.splits prod.splits)











section \<open>Exports-only mode\<close>

text \<open>
  Claim C8. In exports-only mode the functions pass does not run: the list of unused
  functions is empty, and a report that is written has \<open>totalFunctions\<close> and
  \<open>unusedFunctions\<close> equal to \<open>null\<close>, whatever the scanned files contain.
\<close>

theorem exports_only_skips_functions:
  assumes "main opts readFile now files = Inr r" and "exportsOnly opts"
  shows "foundFunctions r = [] \<and>
         (\<forall>out rep. written r = Some (out, rep) \<longrightarrow>
            totalFunctions rep = None \<and> unusedFunctions rep = None)"
  using main_Inr[OF assms(1)] assms(2)
  by (auto simp: save_report_def build_report_def split: option.splits if_splits)

theorem exports_only_skips_functions_witness:
  "main (demo_opts\<lparr>exportsOnly := True\<rparr>) demo_fs ''T'' demo_files = Inr demo_scan_exports_only \<and>
   exportsOnly (demo_opts\<lparr>exportsOnly := True\<rparr>) \<and>
   foundFunctions demo_scan_exports_only = [] \<and>
   map_option (totalFunctions \<circ> snd) (written demo_scan_exports_only) = Some None \<and>
   map_option (unusedFunctions \<circ> snd) (written demo_scan_exports_only) = Some None"
  using exports_only_skips_functions[OF demo_run_exports_only] demo_run_exports_only
  by (simp add: demo_scan_exports_only_def)

section \<open>No declaration is reported twice\<close>

text \<open>
  Claim C7. A function declaration whose name and file coincide with an export
  declaration is skipped by the functions pass, so it is never in the list of unused
  functions; the unused exports are export declarations, and no declaration is in both
  output lists.
\<close>

theorem found_lists_disjoint:
  assumes "main opts readFile now files = Inr r"
  shows "(\<forall>f \<in> set (foundFunctions r). \<forall>e \<in> set (allExports r).
            \<not> (name e = name f \<and> file_path e = file_path f)) \<and>
         set (foundExports r) \<subseteq> set (allExports r) \<and>
         set (foundExports r) \<inter> set (foundFunctions r) = {}"
proof -
  from main_Inr[OF assms] obtain fc where
    ce: "check_exports opts fc (allExports r) = Inr (foundExports r)" and
    cf: "(if exportsOnly opts then Inr [] else check_functions (allExports r) fc (allFunctions r))
           = Inr (foundFunctions r)"
    by blast
  have sub: "set (foundExports r) \<subseteq> set (allExports r)"
  proof -
    from check_exports_filter[OF ce] obtain P where "foundExports r = filter P (allExports r)" by blast
    then show ?thesis by (metis filter_is_subset)
  qed
  have skip: "\<not> (name e = name f \<and> file_path e = file_path f)"
    if f: "f \<in> set (foundFunctions r)" and e: "e \<in> set (allExports r)" for f e
  proof (cases "exportsOnly opts")
    case True
    with cf f show ?thesis by simp
  next
    case False
    with cf have "check_functions (allExports r) fc (allFunctions r) = Inr (foundFunctions r)" by simp
    from check_functions_filter[OF this] f
    have "f \<in> set (filter (\<lambda>f. function_unused (allExports r) fc f = Inr True) (allFunctions r))"
      by simp
    then have "function_unused (allExports r) fc f = Inr True" by simp
    then have "\<not> list_ex (\<lambda>e. name e = name f \<and> file_path e = file_path f) (allExports r)"
      by (auto simp: function_unused_def split: if_splits)
    with e show ?thesis by (auto simp: list_ex_iff)
  qed
  from sub skip show ?thesis by blast
qed

text \<open>
  A run in which a function is both exported and matched as a plain function:
  \<open>export default function Bar(){}\<close> is the only file. \<open>Bar\<close> is reported as an unused
  export and not as an unused function.
\<close>

definition bar_fs :: "string \<Rightarrow> string option" where
  "bar_fs = map_of [(''a.js'', ''export default function Bar(){}'')]"

definition bar_scan :: scan where
  "bar_scan =
     \<lparr>allExports = [\<lparr>name = ''Bar'', type = Default, file_path = ''a.js''\<rparr>],
      allFunctions = [\<lparr>name = ''Bar'', type = Function, file_path = ''a.js''\<rparr>],
      foundExports = [\<lparr>name = ''Bar'', type = Default, file_path = ''a.js''\<rparr>],
      foundFunctions = [],
      written = Some (''dead-code.json'',
        \<lparr>timestamp = ''T'', filesScanned = 1, totalExports = 1, totalFunctions = Some 1,
         unusedExports = [\<lparr>name = ''Bar'', type = Default, file_path = ''a.js''\<rparr>],
         unusedFunctions = Some []\<rparr>)\<rparr>"

lemma bar_run: "main demo_opts bar_fs ''T'' [''a.js''] = Inr bar_scan"
  by code_simp

theorem found_lists_disjoint_witness:
  "main demo_opts bar_fs ''T'' [''a.js''] = Inr bar_scan \<and>
   foundExports bar_scan = [\<lparr>name = ''Bar'', type = Default, file_path = ''a.js''\<rparr>] \<and>
   foundFunctions bar_scan = [] \<and>
   set (foundExports bar_scan) \<subseteq> set (allExports bar_scan) \<and>
   set (foundExports bar_scan) \<inter> set (foundFunctions bar_scan) = {}"
  using found_lists_disjoint[OF bar_run] bar_run
  by (simp add: bar_scan_def)

section \<open>Two runs\<close>






section \<open>Renamed bindings in findImports\<close>

text \<open>
  Claim C6. For a named import with a rename clause the import set holds the local
  name: \<open>import { a as b } from 'm'\<close> gives a set with \<open>b\<close> and without \<open>a\<close>. The claim
  says the same of a destructured \<open>require\<close> binding with a \<open>:\<close> rename. There the code
  takes the part before the colon: \<open>const { a: b } = require('m')\<close> gives a set with the
  property key \<open>a\<close> and without the local name \<open>b\<close>.
\<close>

theorem require_rename_records_key:
  "findImports (''import { a as b } from '' @ [CHR 0x27] @ ''m'' @ [CHR 0x27]) = Some {''b''} \<and>
   findImports (''const { a: b } = require('' @ [CHR 0x27] @ ''m'' @ [CHR 0x27] @ '')'')
     = Some {''a''}"
  by code_simp

section \<open>Exported functions in extractFunctions\<close>

text \<open>
  Claim C2. A snippet with one construct should yield one declaration, and an
  export-qualified function only its export declaration. The lookbehind of \<open>funcRegex\<close>
  only looks for \<open>export\<close> and white space directly before the keyword \<open>function\<close>:
  \<open>export function foo(){}\<close> yields the named export alone, but for
  \<open>export default function Bar(){}\<close> and \<open>export async function foo(){}\<close> the keyword
  follows \<open>default\<close> or \<open>async\<close>, and the function extractor yields a plain function
  next to the export declaration.
\<close>

theorem exported_function_also_plain:
  "extractExports ''export function foo(){}'' ''a.js''
     = Some [\<lparr>name = ''foo'', type = Named, file_path = ''a.js''\<rparr>] \<and>
   extractFunctions ''export function foo(){}'' ''a.js'' = Some [] \<and>
   extractExports ''export default function Bar(){}'' ''a.js''
     = Some [\<lparr>name = ''Bar'', type = Default, file_path = ''a.js''\<rparr>] \<and>
   extractFunctions ''export default function Bar(){}'' ''a.js''
     = Some [\<lparr>name = ''Bar'', type = Function, file_path = ''a.js''\<rparr>] \<and>
   extractExports ''export async function foo(){}'' ''a.js''
     = Some [\<lparr>name = ''foo'', type = Named, file_path = ''a.js''\<rparr>] \<and>
   extractFunctions ''export async function foo(){}'' ''a.js''
     = Some [\<lparr>name = ''foo'', type = Function, file_path = ''a.js''\<rparr>]"
  by code_simp

section \<open>Names with pattern syntax in the exports pass\<close>

text \<open>
  The words of the specification: the name occurs in the text as a whole word, that is,
  with no word character next to it on either side.
\<close>

definition whole_word_in :: "string \<Rightarrow> string \<Rightarrow> bool" where
  "whole_word_in n text \<longleftrightarrow>
     (\<exists>before after. text = before @ n @ after \<and>
        (before = [] \<or> \<not> is_word (last before)) \<and> (after = [] \<or> \<not> is_word (hd after)))"

text \<open>
  Claim C1. An export outside the entry points should be classified unused exactly when
  no other file imports its name and no other file holds a whole-word occurrence of it.
  The exports pass pastes the name into a pattern without escaping it. \<open>$\<close> is a legal
  character of an identifier and the end-of-input assertion of a pattern: for the export
  \<open>a$b\<close> of \<open>a.js\<close> the pattern \<open>\ba$b\b\<close> matches nothing, so the occurrence of \<open>a$b\<close> in
  \<open>b.js\<close> is not counted and the export is reported as unused.
\<close>

definition dollar_fs :: "string \<Rightarrow> string option" where
  "dollar_fs = map_of [(''a.js'', ''export { a$b }''), (''b.js'', ''console.log(m.a$b);'')]"

theorem unescaped_name_hides_usage:
  "map_sum id foundExports (main demo_opts dollar_fs ''T'' [''a.js'', ''b.js''])
     = Inr [\<lparr>name = ''a$b'', type = Named, file_path = ''a.js''\<rparr>] \<and>
   dollar_fs ''b.js'' = Some ''console.log(m.a$b);'' \<and>
   whole_word_in ''a$b'' ''console.log(m.a$b);''"
proof -
  have "map_sum id foundExports (main demo_opts dollar_fs ''T'' [''a.js'', ''b.js''])
     = Inr [\<lparr>name = ''a$b'', type = Named, file_path = ''a.js''\<rparr>]"
    by code_simp
  moreover have "dollar_fs ''b.js'' = Some ''console.log(m.a$b);''"
    by (simp add: dollar_fs_def)
  moreover have "whole_word_in ''a$b'' ''console.log(m.a$b);''"
    unfolding whole_word_in_def
    by (intro exI[of _ "''console.log(m.''"] exI[of _ "'');''"]) (simp add: is_word_def)
  ultimately show ?thesis by blast
qed


section \<open>Arrow functions in the functions pass\<close>

text \<open>
  Claim C4. An arrow function bound by \<open>const\<close>, \<open>let\<close> or \<open>var\<close> is never put into the list
  of unused functions. Both arrow patterns demand white space before the captured name
  and white space or \<open>=\<close> after it, so the reference pattern \<open>[^\w]name[^\w(]\<close> matches the
  text of the binding itself; whenever the call count is not positive the reference scan
  finds that match, and the declaration is not pushed.
\<close>

theorem arrow_functions_never_reported:
  assumes "main opts readFile now files = Inr r" and "d \<in> set (foundFunctions r)"
  shows "type d \<noteq> Arrow"
proof
  assume arrow: "type d = Arrow"
  from main_Inr[OF assms(1)] obtain fc where
    fp: "first_pass (exportsOnly opts) readFile files ([], [], []) = Some (allExports r, allFunctions r, fc)"
    and cf: "(if exportsOnly opts then Inr [] else check_functions (allExports r) fc (allFunctions r))
           = Inr (foundFunctions r)"
    by blast
  from cf assms(2) have "check_functions (allExports r) fc (allFunctions r) = Inr (foundFunctions r)"
    by (auto split: if_splits)
  from check_functions_filter[OF this] assms(2)
  have "d \<in> set (filter (\<lambda>f. function_unused (allExports r) fc f = Inr True) (allFunctions r))"
    by simp
  then have d: "d \<in> set (allFunctions r)" "function_unused (allExports r) fc d = Inr True" by auto
  from first_pass_functions[OF fp d(1)] obtain f content fs where
    f: "f \<in> set files" "readFile f = Some content" "extractFunctions content f = Some fs" "d \<in> set fs"
    by auto
  from first_pass_contents[OF fp, of f] f have "map_of fc f = Some content" by simp
  from arrow_not_unused[OF f(3,4) arrow this] d(2) show False by blast
qed

text \<open>
  A run over one file with an arrow function that nothing uses and a plain function that
  nothing calls: only the plain function is reported.
\<close>

definition arrow_fs :: "string \<Rightarrow> string option" where
  "arrow_fs = map_of [(''a.js'', ''const unusedCalculation = () => 1; function local(){}'')]"

definition arrow_scan :: scan where
  "arrow_scan =
     \<lparr>allExports = [],
      allFunctions = [\<lparr>name = ''local'', type = Function, file_path = ''a.js''\<rparr>,
                      \<lparr>name = ''unusedCalculation'', type = Arrow, file_path = ''a.js''\<rparr>],
      foundExports = [],
      foundFunctions = [\<lparr>name = ''local'', type = Function, file_path = ''a.js''\<rparr>],
      written = Some (''dead-code.json'',
        \<lparr>timestamp = ''T'', filesScanned = 1, totalExports = 0, totalFunctions = Some 2,
         unusedExports = [],
         unusedFunctions = Some [\<lparr>name = ''local'', type = Function, file_path = ''a.js''\<rparr>]\<rparr>)\<rparr>"

lemma arrow_run: "main demo_opts arrow_fs ''T'' [''a.js''] = Inr arrow_scan"
  by code_simp

theorem arrow_functions_never_reported_witness:
  "main demo_opts arrow_fs ''T'' [''a.js''] = Inr arrow_scan \<and>
   \<lparr>name = ''unusedCalculation'', type = Arrow, file_path = ''a.js''\<rparr> \<in> set (allFunctions arrow_scan) \<and>
   \<lparr>name = ''local'', type = Function, file_path = ''a.js''\<rparr> \<in> set (foundFunctions arrow_scan) \<and>
   type \<lparr>name = ''local'', type = Function, file_path = ''a.js''\<rparr> \<noteq> Arrow"
  using arrow_functions_never_reported[OF arrow_run,
          of "\<lparr>name = ''local'', type = Function, file_path = ''a.js''\<rparr>"] arrow_run
  by (simp add: arrow_scan_def)

section \<open>The entry-point test\<close>

text \<open>
  Claim C10. The exclusion of entry points is a suffix match on the relative path: a
  path is taken for an entry point exactly when it ends in \<open>index\<close> or \<open>main\<close> followed by
  \<open>.js\<close>, \<open>.jsx\<close>, \<open>.ts\<close> or \<open>.tsx\<close>, or in \<open>app\<close> with one of these extensions in any
  mixture of upper and lower case. Nothing is asked of what stands before the suffix, so
  \<open>myindex.ts\<close> is an entry point; \<open>Index.ts\<close> is none, \<open>APP.TSX\<close> is one. An export of
  such a file is never in the list of unused exports.
\<close>

theorem entry_point_is_suffix_match:
  "(is_entry_point p \<longleftrightarrow>
      (\<exists>dir e. p = dir @ e \<and>
         (e \<in> {''index.js'', ''index.jsx'', ''index.ts'', ''index.tsx''} \<or>
          e \<in> {''main.js'', ''main.jsx'', ''main.ts'', ''main.tsx''} \<or>
          map to_lower e \<in> {''app.js'', ''app.jsx'', ''app.ts'', ''app.tsx''}))) \<and>
   (main opts readFile now files = Inr r \<longrightarrow> is_entry_point (relative opts (file_path d)) \<longrightarrow>
      d \<notin> set (foundExports r))"
proof (intro conjI impI)
  show "is_entry_point p \<longleftrightarrow>
      (\<exists>dir e. p = dir @ e \<and>
         (e \<in> {''index.js'', ''index.jsx'', ''index.ts'', ''index.tsx''} \<or>
          e \<in> {''main.js'', ''main.jsx'', ''main.ts'', ''main.tsx''} \<or>
          map to_lower e \<in> {''app.js'', ''app.jsx'', ''app.ts'', ''app.tsx''}))"
    by (rule is_entry_point_iff)
next
  assume run: "main opts readFile now files = Inr r"
    and entry: "is_entry_point (relative opts (file_path d))"
  from main_Inr[OF run] obtain fc where
    "check_exports opts fc (allExports r) = Inr (foundExports r)" by blast
  from check_exports_filter[OF this]
  have "set (foundExports r) =
      set (filter (\<lambda>e. \<not> is_entry_point (relative opts (file_path e)) \<and> total_usages e fc = Inr 0)
             (allExports r))"
    by simp
  with entry show "d \<notin> set (foundExports r)" by simp
qed

lemma entry_point_examples:
  "is_entry_point ''myindex.ts'' \<and> is_entry_point ''src/APP.TSX'' \<and> is_entry_point ''lib/App.js'' \<and>
   \<not> is_entry_point ''Index.ts'' \<and> \<not> is_entry_point ''MAIN.JS'' \<and> \<not> is_entry_point ''index.ts.bak''"
  by code_simp

theorem entry_point_is_suffix_match_witness:
  "is_entry_point ''myindex.ts'' \<and>
   main demo_opts demo_fs ''T'' demo_files = Inr demo_scan \<and>
   is_entry_point (relative demo_opts (file_path unused_decl)) \<and>
   unused_decl \<in> set (allExports demo_scan) \<and>
   unused_decl \<notin> set (foundExports demo_scan)"
proof -
  have a: "''myindex.ts'' = ''my'' @ ''index.ts''" by simp
  have "is_entry_point ''myindex.ts''"
    using entry_point_is_suffix_match[of "''myindex.ts''" demo_opts demo_fs "''T''" demo_files demo_scan unused_decl] a
    by blast
  moreover have e: "is_entry_point (relative demo_opts (file_path unused_decl))"
    by code_simp
  moreover have "unused_decl \<notin> set (foundExports demo_scan)"
    using entry_point_is_suffix_match[of "''myindex.ts''" demo_opts demo_fs "''T''" demo_files demo_scan unused_decl]
      demo_run e by blast
  moreover have "unused_decl \<in> set (allExports demo_scan)"
    by (simp add: demo_scan_def)
  ultimately show ?thesis using demo_run by blast
qed


section \<open>Export lists\<close>




section \<open>Call counting in the functions pass\<close>







subsection \<open>The call pattern finds the call sites, each once\<close>














subsection \<open>The reference pattern\<close>



subsection \<open>The definition is a call site\<close>





subsection \<open>The body of the loop\<close>




text \<open>
  Two more runs over one file: a function that is called once besides its definition,
  and a function that is passed as a value. Neither is reported.
\<close>

lemma called_function_run:
  "map_sum id foundFunctions
     (main demo_opts (map_of [(''a.js'', ''function f(){} f();'')]) ''T'' [''a.js'']) = Inr []"
  by code_simp

lemma referenced_function_run:
  "map_sum id foundFunctions
     (main demo_opts (map_of [(''a.js'', ''function f(){} xs.map(f);'')]) ''T'' [''a.js'']) = Inr []"
  by code_simp

end
